theory Spec2Isabelle
  imports Main
begin

section \<open>Strings, characters and the string primitives of the source\<close>

text \<open>
  The diagram sanitizer (\<^verbatim>\<open>sanitizeMermaidCode\<close> and its helpers) and the diagram guarantee layer
  of \<^verbatim>\<open>geminiService.ts\<close> (\<^verbatim>\<open>hasRenderableGraphDiagram\<close>, the two fallback builders and
  \<^verbatim>\<open>ensureScreenDescriptionsMatchDiagram\<close>) are pure functions over JavaScript strings.

  A JavaScript string is a sequence of UTF-16 code units. This development models the strings
  whose code units are below 256 (Latin-1), as \<^typ>\<open>string\<close>: one \<^typ>\<open>char\<close> is one code unit.
  On that range the white space of \<^verbatim>\<open>trim()\<close> and of \<^verbatim>\<open>\s\<close> is TAB, LF, VT, FF, CR, SPACE and
  NBSP (0xA0); the line terminators (excluded by \<^verbatim>\<open>.\<close>, recognised by \<^verbatim>\<open>$\<close> and \<^verbatim>\<open>^\<close> under the
  \<^verbatim>\<open>m\<close> flag) are LF and CR; \<^verbatim>\<open>\w\<close> is \<^verbatim>\<open>[A-Za-z0-9_]\<close>; and \<^verbatim>\<open>toLowerCase()\<close> maps A-Z and
  0xC0-0xDE (except 0xD7) to the code unit 32 above, staying inside the range.
\<close>

abbreviation dq :: char where "dq \<equiv> CHR 0x22"
abbreviation sq :: char where "sq \<equiv> CHR 0x27"
abbreviation bsl :: char where "bsl \<equiv> CHR 0x5C"
abbreviation nl :: char where "nl \<equiv> CHR 0x0A"
abbreviation cr :: char where "cr \<equiv> CHR 0x0D"

definition is_space :: "char \<Rightarrow> bool" where
  "is_space c = (c \<in> set [CHR 0x09, CHR 0x0A, CHR 0x0B, CHR 0x0C, CHR 0x0D, CHR 0x20, CHR 0xA0])"

definition is_lt :: "char \<Rightarrow> bool" where
  "is_lt c = (c = nl \<or> c = cr)"

definition is_upper :: "char \<Rightarrow> bool" where
  "is_upper c = (65 \<le> (of_char c :: nat) \<and> (of_char c :: nat) \<le> 90)"

definition is_lower :: "char \<Rightarrow> bool" where
  "is_lower c = (97 \<le> (of_char c :: nat) \<and> (of_char c :: nat) \<le> 122)"

definition is_digit :: "char \<Rightarrow> bool" where
  "is_digit c = (48 \<le> (of_char c :: nat) \<and> (of_char c :: nat) \<le> 57)"

definition is_alpha :: "char \<Rightarrow> bool" where
  "is_alpha c = (is_upper c \<or> is_lower c)"

definition is_word :: "char \<Rightarrow> bool" where
  "is_word c = (is_alpha c \<or> is_digit c \<or> c = CHR ''_'')"

definition is_upper_latin1 :: "char \<Rightarrow> bool" where
  "is_upper_latin1 c =
     (192 \<le> (of_char c :: nat) \<and> (of_char c :: nat) \<le> 222 \<and> (of_char c :: nat) \<noteq> 215)"

text \<open>Adding 32 to an upper-case code unit is setting bit 5, which is clear in all of them.\<close>

definition lower_char :: "char \<Rightarrow> char" where
  "lower_char c =
     (if is_upper c \<or> is_upper_latin1 c
      then (case c of Char b0 b1 b2 b3 b4 b5 b6 b7 \<Rightarrow> Char b0 b1 b2 b3 b4 True b6 b7)
      else c)"

definition toLowerCase :: "string \<Rightarrow> string" where
  "toLowerCase s = map lower_char s"

text \<open>
  \<^verbatim>\<open>toUpperCase()\<close> is only applied by the source to text captured by \<^verbatim>\<open>[A-Za-z]+\<close>, where
  it clears bit 5 of the lower-case letters.
\<close>

definition upper_char :: "char \<Rightarrow> char" where
  "upper_char c =
     (if is_lower c
      then (case c of Char b0 b1 b2 b3 b4 b5 b6 b7 \<Rightarrow> Char b0 b1 b2 b3 b4 False b6 b7)
      else c)"

definition toUpperCase :: "string \<Rightarrow> string" where
  "toUpperCase s = map upper_char s"

definition trim :: "string \<Rightarrow> string" where
  "trim s = rev (dropWhile is_space (rev (dropWhile is_space s)))"

definition startsWith :: "string \<Rightarrow> string \<Rightarrow> bool" where
  "startsWith s k = (take (length k) s = k)"

definition endsWith :: "string \<Rightarrow> string \<Rightarrow> bool" where
  "endsWith s k = (length k \<le> length s \<and> drop (length s - length k) s = k)"

text \<open>\<^verbatim>\<open>s.slice(a, b)\<close> for indices already resolved to \<open>0 \<le> a\<close>, \<open>0 \<le> b\<close>.\<close>

definition slice :: "nat \<Rightarrow> nat \<Rightarrow> string \<Rightarrow> string" where
  "slice a b s = take (b - a) (drop a s)"

text \<open>\<^verbatim>\<open>s.split(d)\<close> for a one-character separator: never empty, \<^verbatim>\<open>''.split(d)\<close> is \<^verbatim>\<open>['']\<close>.\<close>

fun split_on :: "char \<Rightarrow> string \<Rightarrow> string list" where
  "split_on d [] = [[]]"
| "split_on d (x # xs) =
     (if x = d then [] # split_on d xs
      else (case split_on d xs of l # ls \<Rightarrow> (x # l) # ls | [] \<Rightarrow> [[x]]))"

fun join :: "string \<Rightarrow> string list \<Rightarrow> string" where
  "join sep [] = []"
| "join sep [l] = l"
| "join sep (l # m # ls) = l @ sep @ join sep (m # ls)"

section \<open>Regular expressions with the backtracking order of JavaScript\<close>

text \<open>
  The source's regular expressions use single characters and character classes, greedy and lazy
  repetition of a class, sequence, ordered alternation, capture groups, the anchors \<^verbatim>\<open>^\<close> and
  \<^verbatim>\<open>$\<close> (with or without the \<^verbatim>\<open>m\<close> flag) and one-character lookahead. A matching state is the
  code unit before the current position (\<open>None\<close> at index 0), the rest of the input and the
  captures made so far. \<open>ms r st\<close> lists every way \<open>r\<close> can match from \<open>st\<close> in the order in which
  a backtracking matcher tries them, so that the head of the list is the match JavaScript
  reports.
\<close>

datatype rx =
    Eps
  | Ch "char \<Rightarrow> bool"
  | Seq rx rx
  | Alt rx rx
  | Star "char \<Rightarrow> bool"
  | Lazy "char \<Rightarrow> bool"
  | Grp nat rx
  | Bol bool
  | Eol bool
  | Ahead "char \<Rightarrow> bool"
  | NotAhead "char \<Rightarrow> bool"

type_synonym caps = "(nat \<times> string) list"
type_synonym mstate = "char option \<times> string \<times> caps"

fun ms :: "rx \<Rightarrow> mstate \<Rightarrow> mstate list" where
  "ms Eps st = [st]"
| "ms (Ch P) (p, [], c) = []"
| "ms (Ch P) (p, x # xs, c) = (if P x then [(Some x, xs, c)] else [])"
| "ms (Seq a b) st = concat (map (ms b) (ms a st))"
| "ms (Alt a b) st = ms a st @ ms b st"
| "ms (Star P) (p, [], c) = [(p, [], c)]"
| "ms (Star P) (p, x # xs, c) =
     (if P x then ms (Star P) (Some x, xs, c) @ [(p, x # xs, c)] else [(p, x # xs, c)])"
| "ms (Lazy P) (p, [], c) = [(p, [], c)]"
| "ms (Lazy P) (p, x # xs, c) =
     (p, x # xs, c) # (if P x then ms (Lazy P) (Some x, xs, c) else [])"
| "ms (Grp n a) (p, s, c) =
     map (\<lambda>(p', s', c'). (p', s', (n, take (length s - length s') s) # c')) (ms a (p, s, c))"
| "ms (Bol m) (p, s, c) =
     (case p of None \<Rightarrow> [(p, s, c)] | Some x \<Rightarrow> if m \<and> is_lt x then [(p, s, c)] else [])"
| "ms (Eol m) (p, s, c) =
     (case s of [] \<Rightarrow> [(p, s, c)] | x # xs \<Rightarrow> if m \<and> is_lt x then [(p, s, c)] else [])"
| "ms (Ahead P) (p, s, c) = (case s of [] \<Rightarrow> [] | x # xs \<Rightarrow> if P x then [(p, s, c)] else [])"
| "ms (NotAhead P) (p, s, c) =
     (case s of [] \<Rightarrow> [(p, s, c)] | x # xs \<Rightarrow> if P x then [] else [(p, s, c)])"

text \<open>Pattern building blocks: literals, case-insensitive literals, \<^verbatim>\<open>+\<close>, sequences, alternatives.\<close>

definition ci :: "char \<Rightarrow> char \<Rightarrow> bool" where
  "ci k x = (lower_char x = lower_char k)"

fun lit :: "string \<Rightarrow> rx" where
  "lit [] = Eps"
| "lit (k # ks) = Seq (Ch ((=) k)) (lit ks)"

fun liti :: "string \<Rightarrow> rx" where
  "liti [] = Eps"
| "liti (k # ks) = Seq (Ch (ci k)) (liti ks)"

definition Plus :: "(char \<Rightarrow> bool) \<Rightarrow> rx" where
  "Plus P = Seq (Ch P) (Star P)"

definition LazyPlus :: "(char \<Rightarrow> bool) \<Rightarrow> rx" where
  "LazyPlus P = Seq (Ch P) (Lazy P)"

fun seqs :: "rx list \<Rightarrow> rx" where
  "seqs [] = Eps"
| "seqs [r] = r"
| "seqs (r # rs) = Seq r (seqs rs)"

fun alts :: "rx list \<Rightarrow> rx" where
  "alts [] = Ch (\<lambda>_. False)"
| "alts [r] = r"
| "alts (r # rs) = Alt r (alts rs)"

definition dot :: "char \<Rightarrow> bool" where
  "dot c = (\<not> is_lt c)"

text \<open>
  \<open>rx_search r p s\<close> is \<^verbatim>\<open>RegExp.prototype.exec\<close> on the input whose remaining part is \<open>s\<close>
  (\<open>p\<close> the code unit before it): the start positions are tried from left to right, the end of
  the input included. The result is the text skipped before the match, the matched text, the
  captures, and the state after the match.
\<close>

fun rx_search ::
  "rx \<Rightarrow> char option \<Rightarrow> string \<Rightarrow> (string \<times> string \<times> caps \<times> char option \<times> string) option" where
  "rx_search r p [] =
     (case ms r (p, [], []) of
        (p', s', c) # _ \<Rightarrow> Some ([], [], c, p', s')
      | [] \<Rightarrow> None)"
| "rx_search r p (x # xs) =
     (case ms r (p, x # xs, []) of
        (p', s', c) # _ \<Rightarrow> Some ([], take (length (x # xs) - length s') (x # xs), c, p', s')
      | [] \<Rightarrow>
         (case rx_search r (Some x) xs of
            None \<Rightarrow> None
          | Some (pre, rest) \<Rightarrow> Some (x # pre, rest)))"

definition rx_test :: "rx \<Rightarrow> string \<Rightarrow> bool" where
  "rx_test r s = (rx_search r None s \<noteq> None)"

text \<open>\<^verbatim>\<open>s.match(r)\<close> for a regular expression without the \<^verbatim>\<open>g\<close> flag: the whole match and the captures.\<close>

definition rx_match :: "rx \<Rightarrow> string \<Rightarrow> (string \<times> caps) option" where
  "rx_match r s =
     (case rx_search r None s of None \<Rightarrow> None | Some (pre, m, c, p', s') \<Rightarrow> Some (m, c))"

definition grp :: "caps \<Rightarrow> nat \<Rightarrow> string" where
  "grp c n = (case map_of c n of None \<Rightarrow> [] | Some t \<Rightarrow> t)"

text \<open>
  \<open>rx_scan r 0 None s\<close> enumerates the matches of a regular expression with the \<^verbatim>\<open>g\<close> flag, as
  \<^verbatim>\<open>String.prototype.replace\<close> and a \<^verbatim>\<open>while (r.exec(s))\<close> loop do: after a match the search
  resumes at its end, after an empty match one code unit further. The result lists, in input
  order, the code units outside every match (\<open>Keep\<close>) and the matches with their captures
  (\<open>Hit\<close>). The counter is the number of code units still covered by the previous match.
\<close>

datatype seg = Keep char | Hit string caps

fun rx_scan :: "rx \<Rightarrow> nat \<Rightarrow> char option \<Rightarrow> string \<Rightarrow> seg list" where
  "rx_scan r k p [] =
     (if k = 0 then (case ms r (p, [], []) of (p', s', c) # _ \<Rightarrow> [Hit [] c] | [] \<Rightarrow> [])
      else [])"
| "rx_scan r k p (x # xs) =
     (if 0 < k then rx_scan r (k - 1) (Some x) xs
      else (case ms r (p, x # xs, []) of
              (p', s', c) # _ \<Rightarrow>
                (let n = length (x # xs) - length s' in
                 Hit (take n (x # xs)) c #
                   (if n = 0 then Keep x # rx_scan r 0 (Some x) xs
                    else rx_scan r (n - 1) (Some x) xs))
            | [] \<Rightarrow> Keep x # rx_scan r 0 (Some x) xs))"

fun seg_text :: "(string \<Rightarrow> caps \<Rightarrow> string) \<Rightarrow> seg \<Rightarrow> string" where
  "seg_text f (Keep x) = [x]"
| "seg_text f (Hit m c) = f m c"

text \<open>\<^verbatim>\<open>s.replace(r, f)\<close> for a regular expression with the \<^verbatim>\<open>g\<close> flag and a replacer function.\<close>

definition rx_replace :: "rx \<Rightarrow> (string \<Rightarrow> caps \<Rightarrow> string) \<Rightarrow> string \<Rightarrow> string" where
  "rx_replace r f s = concat (map (seg_text f) (rx_scan r 0 None s))"

fun seg_hits :: "seg list \<Rightarrow> (string \<times> caps) list" where
  "seg_hits [] = []"
| "seg_hits (Keep x # gs) = seg_hits gs"
| "seg_hits (Hit m c # gs) = (m, c) # seg_hits gs"

definition rx_matches :: "rx \<Rightarrow> string \<Rightarrow> (string \<times> caps) list" where
  "rx_matches r s = seg_hits (rx_scan r 0 None s)"

section \<open>The diagram sanitizer\<close>

subsection \<open>Label cleaner and node-content formatter\<close>

text \<open>\<^verbatim>\<open>text.replace(/\\/g, '\\\\').replace(/"/g, '\\"')\<close>\<close>

definition replace_char :: "char \<Rightarrow> string \<Rightarrow> string \<Rightarrow> string" where
  "replace_char k t s = concat (map (\<lambda>x. if x = k then t else [x]) s)"

definition escapeLabel :: "string \<Rightarrow> string" where
  "escapeLabel text = replace_char dq [bsl, dq] (replace_char bsl [bsl, bsl] text)"

text \<open>
  \<^verbatim>\<open>replace(/^_+/, '')\<close> removes the leading run of underscores and \<^verbatim>\<open>replace(/_+$/, '')\<close> the
  trailing one (the leftmost match of \<^verbatim>\<open>_+$\<close> starts where the trailing run starts).
\<close>

definition strip_underscores :: "string \<Rightarrow> string" where
  "strip_underscores s =
     rev (dropWhile ((=) CHR ''_'') (rev (dropWhile ((=) CHR ''_'') s)))"

definition cleanLabel :: "string \<Rightarrow> string" where
  "cleanLabel text =
     (let cleaned = trim text in
      if cleaned = [] then []
      else
        (let cleaned1 =
               (if (startsWith cleaned [dq] \<and> endsWith cleaned [dq])
                   \<or> (startsWith cleaned [sq] \<and> endsWith cleaned [sq])
                then slice 1 (length cleaned - 1) cleaned
                else cleaned)
         in escapeLabel (trim (strip_underscores cleaned1))))"

text \<open>\<^verbatim>\<open>/^fa:[\w-]+/i\<close>\<close>

definition icon_rx :: rx where
  "icon_rx = seqs [Bol False, liti ''fa:'', Plus (\<lambda>c. is_word c \<or> c = CHR ''-'')]"

text \<open>\<^verbatim>\<open>s.split(/\s+/)[0]\<close>: the text before the first white space.\<close>

definition first_ws_piece :: "string \<Rightarrow> string" where
  "first_ws_piece s = takeWhile (\<lambda>c. \<not> is_space c) s"

definition formatNodeContent :: "string \<Rightarrow> string" where
  "formatNodeContent raw =
     (let trimmed = trim raw in
      if trimmed = [] then [dq, dq]
      else if rx_test icon_rx trimmed then
        (let icon = first_ws_piece trimmed;
             rest = trim (drop (length icon) trimmed)
         in if rest = [] then icon
            else icon @ '' '' @ [dq] @ cleanLabel rest @ [dq])
      else [dq] @ cleanLabel trimmed @ [dq])"

subsection \<open>Statement splitter\<close>

text \<open>
  The loop of \<^verbatim>\<open>splitStatements\<close>: the state is the statements pushed so far, the accumulator
  \<^verbatim>\<open>current\<close> and \<^verbatim>\<open>inQuote\<close>; the first argument is \<^verbatim>\<open>input[i - 1]\<close> (\<open>None\<close> for
  \<^verbatim>\<open>undefined\<close> at \<open>i = 0\<close>).
\<close>

definition push_trimmed :: "string list \<Rightarrow> string \<Rightarrow> string list" where
  "push_trimmed statements current =
     (if trim current \<noteq> [] then statements @ [trim current] else statements)"

fun splitLoop ::
  "char option \<Rightarrow> string \<Rightarrow> string list \<times> string \<times> bool \<Rightarrow> string list \<times> string \<times> bool" where
  "splitLoop prev [] st = st"
| "splitLoop prev (ch # rest) (statements, current, inQuote) =
     (let inQuote1 = (if ch = dq \<and> prev \<noteq> Some bsl then \<not> inQuote else inQuote) in
      if \<not> inQuote1 \<and> (ch = nl \<or> ch = CHR '';'')
      then splitLoop (Some ch) rest (push_trimmed statements current, [], inQuote1)
      else splitLoop (Some ch) rest (statements, current @ [ch], inQuote1))"

definition splitStatements :: "string \<Rightarrow> string list" where
  "splitStatements input =
     (case splitLoop None input ([], [], False) of
        (statements, current, inQuote) \<Rightarrow> push_trimmed statements current)"

subsection \<open>Flow-graph normalizer\<close>

text \<open>\<^verbatim>\<open>/^graph\s+/i\<close> and \<^verbatim>\<open>/^graph\s+([A-Za-z]+)/i\<close>\<close>

definition header_rx :: rx where
  "header_rx = seqs [Bol False, liti ''graph'', Plus is_space]"

definition direction_rx :: rx where
  "direction_rx = seqs [Bol False, liti ''graph'', Plus is_space, Grp 1 (Plus is_alpha)]"

text \<open>The \<^verbatim>\<open>forEach\<close> over the statements; the state is \<^verbatim>\<open>header\<close>, \<^verbatim>\<open>body\<close>, \<^verbatim>\<open>headerFound\<close>.\<close>

definition headerStep ::
  "string \<times> string list \<times> bool \<Rightarrow> string \<Rightarrow> string \<times> string list \<times> bool" where
  "headerStep st statement =
     (case st of (header, body, headerFound) \<Rightarrow>
        if \<not> headerFound \<and> rx_test header_rx statement then
          (let match = rx_match direction_rx statement;
               direction = (case match of Some (m, c) \<Rightarrow> toUpperCase (grp c 1) | None \<Rightarrow> ''TD'');
               header1 = ''graph '' @ (if direction = ''LR'' then ''LR'' else ''TD'');
               remainder =
                 trim (drop (case match of Some (m, c) \<Rightarrow> length m | None \<Rightarrow> 0) statement)
           in (header1, (if remainder \<noteq> [] then body @ splitStatements remainder else body), True))
        else (header, body @ [statement], headerFound))"

text \<open>
  \<^verbatim>\<open>/(-->|---|-->>|==>|=>|-\\.->|-\+->|--x|-x)\s*$/gm\<close>: in the regular-expression literal
  \<^verbatim>\<open>-\\.->\<close> is a hyphen, a backslash, any character but a line terminator, and \<^verbatim>\<open>->\<close>.
\<close>

definition dangling_rx :: rx where
  "dangling_rx =
     seqs [Grp 1 (alts [lit ''-->'', lit ''---'', lit ''-->>'', lit ''==>'', lit ''=>'',
                        seqs [lit ''-'', Ch ((=) bsl), Ch dot, lit ''->''],
                        lit ''-+->'', lit ''--x'', lit ''-x'']),
           Star is_space, Eol True]"

text \<open>\<^verbatim>\<open>new RegExp(`(\\w+)\\${open}([^\\${close}]*?)\\${close}`, 'g')\<close>\<close>

definition node_rx :: "char \<Rightarrow> char \<Rightarrow> rx" where
  "node_rx opn cls =
     seqs [Grp 1 (Plus is_word), Ch ((=) opn), Grp 2 (Lazy (\<lambda>c. c \<noteq> cls)), Ch ((=) cls)]"

definition NODE_BRACKETS :: "(char \<times> char) list" where
  "NODE_BRACKETS = [(CHR ''['', CHR '']''), (CHR ''('', CHR '')''), (CHR ''{'', CHR ''}'')]"

definition formatNodes :: "string \<Rightarrow> char \<times> char \<Rightarrow> string" where
  "formatNodes normalized br =
     (case br of (opn, cls) \<Rightarrow>
        rx_replace (node_rx opn cls)
          (\<lambda>m c. grp c 1 @ [opn] @ formatNodeContent (grp c 2) @ [cls]) normalized)"

text \<open>
  \<^verbatim>\<open>/(---|-->>|--\s*-->|-->|==>|=>|-\\.->|-\+->|--x|-x)\s*\|\s*([^|]+?)\s*\|/g\<close>
\<close>

definition edge_label_rx :: rx where
  "edge_label_rx =
     seqs [Grp 1 (alts [lit ''---'', lit ''-->>'', seqs [lit ''--'', Star is_space, lit ''-->''],
                        lit ''-->'', lit ''==>'', lit ''=>'',
                        seqs [lit ''-'', Ch ((=) bsl), Ch dot, lit ''->''],
                        lit ''-+->'', lit ''--x'', lit ''-x'']),
           Star is_space, Ch ((=) CHR ''|''), Star is_space,
           Grp 2 (LazyPlus (\<lambda>c. c \<noteq> CHR ''|'')), Star is_space, Ch ((=) CHR ''|'')]"

definition normalizeLine :: "string \<Rightarrow> string" where
  "normalizeLine line =
     (let normalized = trim (filter (\<lambda>c. c \<noteq> CHR '';'') line) in
      if normalized = [] then []
      else
        (let normalized1 = rx_replace dangling_rx (\<lambda>m c. []) normalized;
             normalized2 = foldl formatNodes normalized1 NODE_BRACKETS
         in rx_replace edge_label_rx
              (\<lambda>m c. grp c 1 @ ''|'' @ [dq] @ cleanLabel (grp c 2) @ [dq] @ ''|'') normalized2))"

definition normalizeGraphDiagram :: "string \<Rightarrow> string" where
  "normalizeGraphDiagram code =
     (let statements = splitStatements code in
      if statements = [] then []
      else
        (case foldl headerStep (''graph TD'', [], False) statements of
           (header, body, headerFound) \<Rightarrow>
             join [nl] (header # filter (\<lambda>l. l \<noteq> []) (map normalizeLine body))))"

subsection \<open>ER-diagram normalizer\<close>

definition fence_rx :: rx where
  "fence_rx = lit ''```''"

text \<open>\<^verbatim>\<open>/([A-Za-z0-9_]+)\s*:::\s*(\w+)/g\<close>\<close>

definition class_shorthand_rx :: rx where
  "class_shorthand_rx =
     seqs [Grp 1 (Plus is_word), Star is_space, lit '':::'', Star is_space, Grp 2 (Plus is_word)]"

text \<open>\<^verbatim>\<open>/classDef\s+[^\n]+/g\<close>\<close>

definition classDef_rx :: rx where
  "classDef_rx = seqs [lit ''classDef'', Plus is_space, Plus (\<lambda>c. c \<noteq> nl)]"

text \<open>\<^verbatim>\<open>/}\s+(?=[A-Za-z0-9_])/g\<close>\<close>

definition brace_rx :: rx where
  "brace_rx = seqs [Ch ((=) CHR ''}''), Plus is_space, Ahead is_word]"

text \<open>\<^verbatim>\<open>/^(class(?:Def)?.*);/gm\<close>\<close>

definition class_semicolon_rx :: rx where
  "class_semicolon_rx =
     seqs [Bol True, Grp 1 (seqs [lit ''class'', Alt (lit ''Def'') Eps, Star dot]), Ch ((=) CHR '';'')]"

text \<open>\<^verbatim>\<open>/^(.*\s:\s*)(.*)\s*$/\<close>\<close>

definition relation_rx :: rx where
  "relation_rx =
     seqs [Bol False,
           Grp 1 (seqs [Star dot, Ch is_space, Ch ((=) CHR '':''), Star is_space]),
           Grp 2 (Star dot), Star is_space, Eol False]"

text \<open>\<^verbatim>\<open>/[|o}][|-]{2}[o|{]/\<close>\<close>

definition cardinality_rx :: rx where
  "cardinality_rx =
     seqs [Ch (\<lambda>c. c = CHR ''|'' \<or> c = CHR ''o'' \<or> c = CHR ''}''),
           Ch (\<lambda>c. c = CHR ''|'' \<or> c = CHR ''-''),
           Ch (\<lambda>c. c = CHR ''|'' \<or> c = CHR ''-''),
           Ch (\<lambda>c. c = CHR ''o'' \<or> c = CHR ''|'' \<or> c = CHR ''{'')]"

text \<open>The body of the \<^verbatim>\<open>lines.forEach\<close>: \<open>None\<close> for a line that is skipped.\<close>

definition erdLine :: "string \<Rightarrow> string option" where
  "erdLine line =
     (let current = trim line in
      if current = [] then None
      else
        (let current1 = rx_replace class_semicolon_rx (\<lambda>m c. grp c 1) current in
         case rx_match relation_rx current1 of
           None \<Rightarrow> Some current1
         | Some (m, c) \<Rightarrow>
             (let label = trim (grp c 2) in
              if label \<noteq> [] \<and> \<not> startsWith label [dq] \<and> \<not> endsWith label [dq]
                 \<and> rx_match cardinality_rx current1 \<noteq> None
              then Some (trim (grp c 1) @ '' '' @ [dq] @ cleanLabel label @ [dq])
              else Some current1)))"

definition sanitizeErd :: "string \<Rightarrow> string" where
  "sanitizeErd code =
     (let working = rx_replace fence_rx (\<lambda>m c. []) code;
          classAssignments =
            map (\<lambda>(m, c). ''class '' @ trim (grp c 1) @ '' '' @ grp c 2)
              (rx_matches class_shorthand_rx working);
          working1 = rx_replace class_shorthand_rx (\<lambda>m c. grp c 1) working;
          classDefs =
            map (\<lambda>(m, c). trim (filter (\<lambda>x. x \<noteq> CHR '';'') m)) (rx_matches classDef_rx working1);
          working2 = rx_replace classDef_rx (\<lambda>m c. []) working1;
          working3 = rx_replace brace_rx (\<lambda>m c. ''}'' @ [nl]) working2;
          processed = List.map_filter erdLine (split_on nl working3)
      in join [nl] (filter (\<lambda>l. l \<noteq> []) (processed @ classDefs @ classAssignments)))"

subsection \<open>Sequence-diagram normalizer\<close>

definition normalizeParticipantId :: "string \<Rightarrow> string" where
  "normalizeParticipantId raw = toLowerCase (trim (filter (\<lambda>c. c \<noteq> dq \<and> c \<noteq> sq) raw))"

text \<open>\<^verbatim>\<open>/(.*(?:->>|-->>|->|-->|-x|--x)\s*[\w"']+\s*:\s*)(?!")(.*)/\<close>\<close>

definition message_rx :: rx where
  "message_rx =
     seqs [Grp 1 (seqs [Star dot,
                        alts [lit ''->>'', lit ''-->>'', lit ''->'', lit ''-->'', lit ''-x'', lit ''--x''],
                        Star is_space, Plus (\<lambda>c. is_word c \<or> c = dq \<or> c = sq), Star is_space,
                        Ch ((=) CHR '':''), Star is_space]),
           NotAhead ((=) dq), Grp 2 (Star dot)]"

text \<open>\<^verbatim>\<open>/^(\s*)activate\s+(.+)/i\<close> and \<^verbatim>\<open>/^(\s*)deactivate\s+(.+)/i\<close>\<close>

definition activate_rx :: rx where
  "activate_rx =
     seqs [Bol False, Grp 1 (Star is_space), liti ''activate'', Plus is_space, Grp 2 (Plus dot)]"

definition deactivate_rx :: rx where
  "deactivate_rx =
     seqs [Bol False, Grp 1 (Star is_space), liti ''deactivate'', Plus is_space, Grp 2 (Plus dot)]"

definition quoteMessage :: "string \<Rightarrow> string" where
  "quoteMessage line =
     (case rx_match message_rx line of
        None \<Rightarrow> line
      | Some (m, c) \<Rightarrow>
          (let messageText = trim (grp c 2) in
           if messageText \<noteq> [] then grp c 1 @ [dq] @ cleanLabel messageText @ [dq] else line))"

text \<open>
  The body of the \<^verbatim>\<open>forEach\<close> over the lines; the state is the set \<^verbatim>\<open>activeParticipants\<close> and
  the list \<^verbatim>\<open>processedLines\<close>.
\<close>

definition sequenceStep :: "string set \<times> string list \<Rightarrow> string \<Rightarrow> string set \<times> string list" where
  "sequenceStep st line =
     (case st of (activeParticipants, processedLines) \<Rightarrow>
        (let currentLine = quoteMessage line in
         case rx_match activate_rx currentLine of
           Some (m, c) \<Rightarrow>
             (let participantId = normalizeParticipantId (grp c 2) in
              ((if participantId \<noteq> [] then insert participantId activeParticipants
                else activeParticipants),
               processedLines @ [currentLine]))
         | None \<Rightarrow>
             (case rx_match deactivate_rx currentLine of
                Some (m, c) \<Rightarrow>
                  (let participantId = normalizeParticipantId (grp c 2) in
                   if participantId = [] \<or> participantId \<notin> activeParticipants
                   then (activeParticipants, processedLines)
                   else (activeParticipants - {participantId}, processedLines @ [currentLine]))
              | None \<Rightarrow> (activeParticipants, processedLines @ [currentLine]))))"

definition sanitizeSequence :: "string \<Rightarrow> string" where
  "sanitizeSequence code = join [nl] (snd (foldl sequenceStep ({}, []) (split_on nl code)))"

subsection \<open>Dialect dispatcher\<close>

definition sanitizeMermaidCode :: "string \<Rightarrow> string" where
  "sanitizeMermaidCode code =
     (let trimmed = trim code in
      if trimmed = [] then []
      else if startsWith trimmed ''graph'' then normalizeGraphDiagram trimmed
      else if startsWith trimmed ''erDiagram'' then sanitizeErd trimmed
      else if startsWith trimmed ''sequenceDiagram'' then sanitizeSequence trimmed
      else trimmed)"

section \<open>The diagram guarantee layer of the analysis service\<close>

record ComponentInfo =
  name :: string
  path :: string
  description :: string

record TechnologyInfo =
  name :: string
  category :: string
  description :: string

record ScreenDescription =
  screenName :: string
  description :: string
  uiElements :: "string list"
  events :: "string list"
  validations :: "string list"

record CodeQualityAnalysis =
  readability :: string
  extensibility :: string
  security :: string

record AnalysisResult =
  overview :: string
  components :: "ComponentInfo list"
  technologies :: "TechnologyInfo list"
  businessFlowDiagram :: string
  sequenceDiagram :: string
  screenTransitionDiagram :: string
  databaseERD :: string
  screenDescriptions :: "ScreenDescription list"
  codeQualityAnalysis :: CodeQualityAnalysis

subsection \<open>Validity classifier\<close>

text \<open>\<^verbatim>\<open>/^graph\s/i\<close>, \<^verbatim>\<open>/\w+\s*(?:\[|\(|\{)/\<close> and \<^verbatim>\<open>/-->|---|==>|=>|-\.\->|-\+->/\<close>\<close>

definition graph_keyword_rx :: rx where
  "graph_keyword_rx = seqs [Bol False, liti ''graph'', Ch is_space]"

definition has_node_rx :: rx where
  "has_node_rx =
     seqs [Plus is_word, Star is_space,
           alts [Ch ((=) CHR ''[''), Ch ((=) CHR ''(''), Ch ((=) CHR ''{'')]]"

definition has_edge_rx :: rx where
  "has_edge_rx = alts [lit ''-->'', lit ''---'', lit ''==>'', lit ''=>'', lit ''-.->'', lit ''-+->'']"

definition statementLines :: "string \<Rightarrow> string list" where
  "statementLines trimmed =
     filter (\<lambda>line. line \<noteq> [] \<and> \<not> startsWith (toLowerCase line) ''graph '')
       (map trim (split_on nl trimmed))"

text \<open>The parameter is \<^verbatim>\<open>diagram?: string | null\<close>: \<open>None\<close> stands for \<^verbatim>\<open>null\<close> and \<^verbatim>\<open>undefined\<close>.\<close>

definition hasRenderableGraphDiagram :: "string option \<Rightarrow> bool" where
  "hasRenderableGraphDiagram diagram =
     (case diagram of
        None \<Rightarrow> False
      | Some d \<Rightarrow>
          if d = [] then False
          else
            (let trimmed = trim d in
             if trimmed = [] then False
             else if \<not> rx_test graph_keyword_rx trimmed then False
             else
               (let lines = statementLines trimmed in
                if length lines = 0 then False
                else
                  (let hasNode = list_ex (rx_test has_node_rx) lines;
                       hasEdge = list_ex (rx_test has_edge_rx) lines
                   in hasNode \<and> hasEdge))))"

subsection \<open>Fallback synthesizer\<close>

text \<open>The \<^verbatim>\<open>escapeLabel\<close> of the service: \<^verbatim>\<open>text.replace(/"/g, '\\"').trim()\<close>\<close>

definition escapeLabelService :: "string \<Rightarrow> string" where
  "escapeLabelService text = trim (replace_char dq [bsl, dq] text)"

text \<open>Decimal text of an array index, as a template literal prints it.\<close>

fun show_nat :: "nat \<Rightarrow> string" where
  "show_nat n =
     (if n < 10 then [''0123456789'' ! n]
      else show_nat (n div 10) @ [''0123456789'' ! (n mod 10)])"

declare show_nat.simps [simp del]

text \<open>
  \<^verbatim>\<open>/(service|controller|api|logic|backend|handler)/i\<close> and
  \<^verbatim>\<open>/(repository|dao|model|entity|database|db|storage|persistence)/i\<close>
\<close>

definition logic_keywords_rx :: rx where
  "logic_keywords_rx =
     Grp 1 (alts (map liti [''service'', ''controller'', ''api'', ''logic'', ''backend'', ''handler'']))"

definition data_keywords_rx :: rx where
  "data_keywords_rx =
     Grp 1 (alts (map liti [''repository'', ''dao'', ''model'', ''entity'', ''database'', ''db'',
                            ''storage'', ''persistence'']))"

definition pickComponentLabel :: "ComponentInfo list \<Rightarrow> rx \<Rightarrow> string \<Rightarrow> string" where
  "pickComponentLabel comps keywords fallback =
     (case List.find (\<lambda>component. rx_test keywords (ComponentInfo.name component)
                                   \<or> rx_test keywords (ComponentInfo.path component)) comps of
        None \<Rightarrow> fallback
      | Some found \<Rightarrow>
          (let description = (if ComponentInfo.description found \<noteq> []
                              then '' - '' @ ComponentInfo.description found else [])
           in ComponentInfo.name found @ description))"

text \<open>\<^verbatim>\<open>node.split('[')[0]\<close>\<close>

definition node_id :: "string \<Rightarrow> string" where
  "node_id node = hd (split_on CHR ''['' node)"

definition buildBusinessFlowFallback :: "AnalysisResult \<Rightarrow> string" where
  \<open>buildBusinessFlowFallback result =
     (let screens =
            (if length (screenDescriptions result) \<noteq> 0 then screenDescriptions result
             else [\<lparr>screenName = ''Primary Screen'',
                    ScreenDescription.description = ''Key user interaction surface'',
                    uiElements = [], events = [], validations = []\<rparr>]);
          flowNodes = take 3 screens;
          userNode = ''User["User initiates action"]'';
          uiNodes =
            map (\<lambda>(index, screen).
                   ''UI'' @ show_nat index @ ''["'' @ escapeLabelService (screenName screen) @ ''"]'')
              (enumerate 0 flowNodes);
          backendLabel =
            escapeLabelService
              (pickComponentLabel (components result) logic_keywords_rx ''Application Logic Layer'');
          dataLabel =
            escapeLabelService (pickComponentLabel (components result) data_keywords_rx ''Data Store'');
          nodes =
            [''graph TD'', ''  '' @ userNode] @ map (\<lambda>node. ''  '' @ node) uiNodes @
            [''  Logic["'' @ backendLabel @ ''"]'', ''  Data["'' @ dataLabel @ ''"]'',
             ''  Outcome["Business outcome delivered"]''];
          edges =
            (if length uiNodes \<noteq> 0 then
               [''  User --> '' @ node_id (uiNodes ! 0)] @
               map (\<lambda>i. ''  '' @ node_id (uiNodes ! (i - 1)) @ '' --> '' @ node_id (uiNodes ! i))
                 [1..<length uiNodes] @
               [''  '' @ node_id (uiNodes ! (length uiNodes - 1)) @ '' --> Logic'']
             else [''  User --> Logic'']) @
            [''  Logic --> Data'', ''  Data --> Logic'', ''  Logic --> Outcome'']
      in join [nl] (nodes @ edges))\<close>

definition buildScreenTransitionFallback :: "ScreenDescription list \<Rightarrow> string" where
  \<open>buildScreenTransitionFallback screens =
     (let list =
            (if length screens \<noteq> 0 then screens
             else [\<lparr>screenName = ''Main Screen'', ScreenDescription.description = [],
                    uiElements = [], events = [], validations = []\<rparr>]);
          baseNodes =
            map (\<lambda>(index, screen).
                   (''Screen'' @ show_nat index,
                    escapeLabelService
                      (if screenName screen \<noteq> [] then screenName screen
                       else ''Screen '' @ show_nat (index + 1))))
              (enumerate 0 list);
          lines =
            [''graph TD'', ''  Start["User Entry"]'', ''  EndPoint["Goal Achieved"]''] @
            map (\<lambda>(id, label). ''  '' @ id @ ''["'' @ label @ ''"]'') baseNodes;
          lines1 =
            (if length baseNodes \<noteq> 0 then
               lines @ [''  Start --> '' @ fst (baseNodes ! 0)] @
               map (\<lambda>i. ''  '' @ fst (baseNodes ! (i - 1)) @ '' --> '' @ fst (baseNodes ! i))
                 [1..<length baseNodes] @
               [''  '' @ fst (baseNodes ! (length baseNodes - 1)) @ '' --> EndPoint'']
             else lines @ [''  Start --> EndPoint''])
      in join [nl] lines1)\<close>

subsection \<open>Screen-description synchronization\<close>

text \<open>
  \<^verbatim>\<open>/(\w+)\s*(?:\[\s*"([^"]+)"\s*\]|\(\s*"([^"]+)"\s*\)|\{\s*"([^"]+)"\s*\})/g\<close>
\<close>

definition quoted_label_rx :: "char \<Rightarrow> char \<Rightarrow> nat \<Rightarrow> rx" where
  "quoted_label_rx opn cls n =
     seqs [Ch ((=) opn), Star is_space, Ch ((=) dq), Grp n (Plus (\<lambda>c. c \<noteq> dq)), Ch ((=) dq),
           Star is_space, Ch ((=) cls)]"

definition screen_node_rx :: rx where
  "screen_node_rx =
     seqs [Grp 1 (Plus is_word), Star is_space,
           alts [quoted_label_rx CHR ''['' CHR '']'' 2, quoted_label_rx CHR ''('' CHR '')'' 3,
                 quoted_label_rx CHR ''{'' CHR ''}'' 4]]"

text \<open>
  The body of the \<^verbatim>\<open>while ((match = nodeRegex.exec(diagram)) !== null)\<close> loop; the state is
  \<^verbatim>\<open>names\<close> and \<^verbatim>\<open>seen\<close>. A capture that did not take part is \<^verbatim>\<open>undefined\<close>, which \<^verbatim>\<open>||\<close>
  skips like the empty string. The expression has no empty match, so the loop visits the
  matches that \<open>rx_matches\<close> lists.
\<close>

definition extractStep ::
  "string list \<times> string set \<Rightarrow> string \<times> caps \<Rightarrow> string list \<times> string set" where
  "extractStep st match =
     (case st of (names, seen) \<Rightarrow>
        (case match of (m, c) \<Rightarrow>
           (let label = (if grp c 2 \<noteq> [] then grp c 2
                         else if grp c 3 \<noteq> [] then grp c 3 else grp c 4)
            in if label = [] then (names, seen)
               else
                 (let normalized = trim label; key = toLowerCase normalized in
                  if normalized = [] \<or> key \<in> seen then (names, seen)
                  else (names @ [normalized], insert key seen)))))"

definition extractScreenNamesFromDiagram :: "string option \<Rightarrow> string list" where
  "extractScreenNamesFromDiagram diagram =
     (case diagram of
        None \<Rightarrow> []
      | Some d \<Rightarrow>
          if d = [] then []
          else fst (foldl extractStep ([], {}) (rx_matches screen_node_rx d)))"

definition createPlaceholderScreen :: "string \<Rightarrow> ScreenDescription" where
  "createPlaceholderScreen nm =
     \<lparr>screenName = nm,
      ScreenDescription.description = nm @ '' screen (auto-generated placeholder).'',
      uiElements = [''Main content panel'', ''Summary widget''],
      events = [''User reviews data'', ''User navigates to other screens''],
      validations = [''Basic validation is not specified'']\<rparr>"

definition screenKey :: "string \<Rightarrow> string" where
  "screenKey nm = toLowerCase (trim nm)"

definition existingMap :: "ScreenDescription list \<Rightarrow> (string \<rightharpoonup> ScreenDescription)" where
  "existingMap screens = foldl (\<lambda>m screen. m(screenKey (screenName screen) \<mapsto> screen)) Map.empty screens"

definition ensureScreenDescriptionsMatchDiagram :: "AnalysisResult \<Rightarrow> AnalysisResult" where
  "ensureScreenDescriptionsMatchDiagram result =
     (let diagramScreens = extractScreenNamesFromDiagram (Some (screenTransitionDiagram result)) in
      if length diagramScreens = 0 then result
      else
        (let synchronized =
               map (\<lambda>nm. case existingMap (screenDescriptions result) (screenKey nm) of
                            Some screen \<Rightarrow> screen
                          | None \<Rightarrow> createPlaceholderScreen nm) diagramScreens;
             extras =
               filter (\<lambda>screen. \<not> list_ex (\<lambda>label. screenKey label = screenKey (screenName screen))
                                     diagramScreens)
                 (screenDescriptions result)
         in result\<lparr>screenDescriptions := synchronized @ extras\<rparr>))"

section \<open>The sanitizer with its failing operations\<close>

text \<open>
  In JavaScript the capture of a group that took no part in a match is \<^verbatim>\<open>undefined\<close>, both in
  the array returned by \<^verbatim>\<open>match\<close> and among the arguments of a replacer. Calling a method on
  \<^verbatim>\<open>undefined\<close> (\<^verbatim>\<open>trim\<close>, \<^verbatim>\<open>toUpperCase\<close>, \<^verbatim>\<open>replace\<close>) raises a \<^verbatim>\<open>TypeError\<close>; a template literal
  renders \<^verbatim>\<open>undefined\<close> as the text \<^verbatim>\<open>undefined\<close>. These method calls are the only operations of
  the sanitizer that can raise when it is given a string. The functions of this section are the
  functions of the sanitizer with that made explicit: a result is the error raised or the value
  returned, \<open>capture\<close> reads a group as an optional value, \<open>receiver\<close> is a value on which a method
  is called and \<open>interpolate\<close> a value placed in a template literal. The functions of the previous
  sections read an absent capture as the empty text (\<open>grp\<close>).
\<close>

datatype error = TypeError

definition capture :: "caps \<Rightarrow> nat \<Rightarrow> string option" where
  "capture c n = map_of c n"

definition receiver :: "string option \<Rightarrow> error + string" where
  "receiver v = (case v of None \<Rightarrow> Inl TypeError | Some t \<Rightarrow> Inr t)"

definition interpolate :: "string option \<Rightarrow> string" where
  "interpolate v = (case v of None \<Rightarrow> ''undefined'' | Some t \<Rightarrow> t)"

text \<open>Sequencing: an error raised by the first computation ends the whole computation.\<close>

definition and_then :: "error + 'a \<Rightarrow> ('a \<Rightarrow> error + 'b) \<Rightarrow> error + 'b" where
  "and_then r f = (case r of Inl e \<Rightarrow> Inl e | Inr x \<Rightarrow> f x)"

text \<open>\<^verbatim>\<open>map\<close> and \<^verbatim>\<open>forEach\<close> with a callback that can raise.\<close>

fun map_result :: "('a \<Rightarrow> error + 'b) \<Rightarrow> 'a list \<Rightarrow> error + 'b list" where
  "map_result f [] = Inr []"
| "map_result f (x # xs) =
     and_then (f x) (\<lambda>y. and_then (map_result f xs) (\<lambda>ys. Inr (y # ys)))"

fun fold_result :: "('s \<Rightarrow> 'a \<Rightarrow> error + 's) \<Rightarrow> 's \<Rightarrow> 'a list \<Rightarrow> error + 's" where
  "fold_result f s [] = Inr s"
| "fold_result f s (x # xs) = and_then (f s x) (\<lambda>s'. fold_result f s' xs)"

text \<open>\<^verbatim>\<open>s.replace(r, f)\<close> with a replacer that can raise; the replacer is called match by match.\<close>

fun seg_text_exn :: "(string \<Rightarrow> caps \<Rightarrow> error + string) \<Rightarrow> seg \<Rightarrow> error + string" where
  "seg_text_exn f (Keep x) = Inr [x]"
| "seg_text_exn f (Hit m c) = f m c"

definition rx_replace_exn ::
  "rx \<Rightarrow> (string \<Rightarrow> caps \<Rightarrow> error + string) \<Rightarrow> string \<Rightarrow> error + string" where
  "rx_replace_exn r f s =
     and_then (map_result (seg_text_exn f) (rx_scan r 0 None s)) (\<lambda>ts. Inr (concat ts))"

text \<open>
  \<^verbatim>\<open>cleanLabel\<close>, \<^verbatim>\<open>formatNodeContent\<close> and \<^verbatim>\<open>normalizeParticipantId\<close> begin by calling a method on
  their argument (\<^verbatim>\<open>text.trim()\<close>, \<^verbatim>\<open>raw.trim()\<close>, \<^verbatim>\<open>raw.replace(...)\<close>); on a string they cannot
  raise.
\<close>

definition cleanLabel_exn :: "string option \<Rightarrow> error + string" where
  "cleanLabel_exn text = and_then (receiver text) (\<lambda>t. Inr (cleanLabel t))"

definition formatNodeContent_exn :: "string option \<Rightarrow> error + string" where
  "formatNodeContent_exn raw = and_then (receiver raw) (\<lambda>t. Inr (formatNodeContent t))"

text \<open>\<^verbatim>\<open>match[1].toUpperCase()\<close> in the \<^verbatim>\<open>forEach\<close> of \<^verbatim>\<open>normalizeGraphDiagram\<close>.\<close>

definition headerStep_exn ::
  "string \<times> string list \<times> bool \<Rightarrow> string \<Rightarrow> error + (string \<times> string list \<times> bool)" where
  "headerStep_exn st statement =
     (case st of (header, body, headerFound) \<Rightarrow>
        if \<not> headerFound \<and> rx_test header_rx statement then
          (let match = rx_match direction_rx statement in
           and_then
             (case match of
                Some (m, c) \<Rightarrow> and_then (receiver (capture c 1)) (\<lambda>d. Inr (toUpperCase d))
              | None \<Rightarrow> Inr ''TD'')
             (\<lambda>direction.
                let header1 = ''graph '' @ (if direction = ''LR'' then ''LR'' else ''TD'');
                    remainder =
                      trim (drop (case match of Some (m, c) \<Rightarrow> length m | None \<Rightarrow> 0) statement)
                in Inr (header1,
                        (if remainder \<noteq> [] then body @ splitStatements remainder else body),
                        True)))
        else Inr (header, body @ [statement], headerFound))"

text \<open>
  The replacer of the node patterns calls \<^verbatim>\<open>formatNodeContent(content)\<close> and builds
  \<^verbatim>\<open>`${id}${open}${formatted}${close}`\<close>; the replacer of the edge-label pattern calls
  \<^verbatim>\<open>cleanLabel(label)\<close> and builds \<^verbatim>\<open>`${arrow}|"${cleaned}"|`\<close>.
\<close>

definition formatNodes_exn :: "string \<Rightarrow> char \<times> char \<Rightarrow> error + string" where
  "formatNodes_exn normalized br =
     (case br of (opn, cls) \<Rightarrow>
        rx_replace_exn (node_rx opn cls)
          (\<lambda>m c. and_then (formatNodeContent_exn (capture c 2))
                   (\<lambda>formatted. Inr (interpolate (capture c 1) @ [opn] @ formatted @ [cls])))
          normalized)"

definition normalizeLine_exn :: "string \<Rightarrow> error + string" where
  "normalizeLine_exn line =
     (let normalized = trim (filter (\<lambda>c. c \<noteq> CHR '';'') line) in
      if normalized = [] then Inr []
      else
        (let normalized1 = rx_replace dangling_rx (\<lambda>m c. []) normalized in
         and_then (fold_result formatNodes_exn normalized1 NODE_BRACKETS)
           (\<lambda>normalized2.
              rx_replace_exn edge_label_rx
                (\<lambda>m c. and_then (cleanLabel_exn (capture c 2))
                         (\<lambda>cleaned. Inr (interpolate (capture c 1) @ ''|'' @ [dq] @ cleaned @ [dq] @ ''|'')))
                normalized2)))"

definition normalizeGraphDiagram_exn :: "string \<Rightarrow> error + string" where
  "normalizeGraphDiagram_exn code =
     (let statements = splitStatements code in
      if statements = [] then Inr []
      else
        and_then (fold_result headerStep_exn (''graph TD'', [], False) statements)
          (\<lambda>st. case st of (header, body, headerFound) \<Rightarrow>
             and_then (map_result normalizeLine_exn body)
               (\<lambda>normalizedBody. Inr (join [nl] (header # filter (\<lambda>l. l \<noteq> []) normalizedBody)))))"

text \<open>
  In \<^verbatim>\<open>sanitizeErd\<close> the replacement text \<^verbatim>\<open>'$1'\<close> stands for the empty text when group 1 is absent
  and cannot raise; \<^verbatim>\<open>relMatch[2].trim()\<close> and \<^verbatim>\<open>relMatch[1].trim()\<close> can. The replacer of the
  class shorthand calls \<^verbatim>\<open>entity.trim()\<close> for the statement it records and returns \<^verbatim>\<open>entity\<close>.
\<close>

definition erdLine_exn :: "string \<Rightarrow> error + string option" where
  "erdLine_exn line =
     (let current = trim line in
      if current = [] then Inr None
      else
        (let current1 = rx_replace class_semicolon_rx (\<lambda>m c. grp c 1) current in
         case rx_match relation_rx current1 of
           None \<Rightarrow> Inr (Some current1)
         | Some (m, c) \<Rightarrow>
             and_then (receiver (capture c 2))
               (\<lambda>text.
                  let label = trim text in
                  if label \<noteq> [] \<and> \<not> startsWith label [dq] \<and> \<not> endsWith label [dq]
                     \<and> rx_match cardinality_rx current1 \<noteq> None
                  then and_then (receiver (capture c 1))
                         (\<lambda>lhs. Inr (Some (trim lhs @ '' '' @ [dq] @ cleanLabel label @ [dq])))
                  else Inr (Some current1))))"

definition sanitizeErd_exn :: "string \<Rightarrow> error + string" where
  "sanitizeErd_exn code =
     (let working = rx_replace fence_rx (\<lambda>m c. []) code in
      and_then
        (map_result
           (\<lambda>(m, c). and_then (receiver (capture c 1))
                       (\<lambda>entity. Inr (''class '' @ trim entity @ '' '' @ interpolate (capture c 2))))
           (rx_matches class_shorthand_rx working))
        (\<lambda>classAssignments.
           and_then (rx_replace_exn class_shorthand_rx (\<lambda>m c. Inr (interpolate (capture c 1))) working)
             (\<lambda>working1.
                let classDefs =
                      map (\<lambda>(m, c). trim (filter (\<lambda>x. x \<noteq> CHR '';'') m))
                        (rx_matches classDef_rx working1);
                    working2 = rx_replace classDef_rx (\<lambda>m c. []) working1;
                    working3 = rx_replace brace_rx (\<lambda>m c. ''}'' @ [nl]) working2
                in and_then (map_result erdLine_exn (split_on nl working3))
                     (\<lambda>processed.
                        Inr (join [nl] (filter (\<lambda>l. l \<noteq> [])
                               (List.map_filter id processed @ classDefs @ classAssignments)))))))"

text \<open>
  In \<^verbatim>\<open>sanitizeSequence\<close>: \<^verbatim>\<open>messageMatch[2].trim()\<close>, the template literal
  \<^verbatim>\<open>`${messageMatch[1]}"${cleanLabel(messageText)}"`\<close>, and \<^verbatim>\<open>normalizeParticipantId\<close> applied to
  group 2 of the activation patterns.
\<close>

definition normalizeParticipantId_exn :: "string option \<Rightarrow> error + string" where
  "normalizeParticipantId_exn raw = and_then (receiver raw) (\<lambda>t. Inr (normalizeParticipantId t))"

definition quoteMessage_exn :: "string \<Rightarrow> error + string" where
  "quoteMessage_exn line =
     (case rx_match message_rx line of
        None \<Rightarrow> Inr line
      | Some (m, c) \<Rightarrow>
          and_then (receiver (capture c 2))
            (\<lambda>text.
               let messageText = trim text in
               if messageText \<noteq> []
               then Inr (interpolate (capture c 1) @ [dq] @ cleanLabel messageText @ [dq])
               else Inr line))"

definition sequenceStep_exn ::
  "string set \<times> string list \<Rightarrow> string \<Rightarrow> error + (string set \<times> string list)" where
  "sequenceStep_exn st line =
     (case st of (activeParticipants, processedLines) \<Rightarrow>
        and_then (quoteMessage_exn line)
          (\<lambda>currentLine.
             case rx_match activate_rx currentLine of
               Some (m, c) \<Rightarrow>
                 and_then (normalizeParticipantId_exn (capture c 2))
                   (\<lambda>participantId.
                      Inr ((if participantId \<noteq> [] then insert participantId activeParticipants
                            else activeParticipants),
                           processedLines @ [currentLine]))
             | None \<Rightarrow>
                 (case rx_match deactivate_rx currentLine of
                    Some (m, c) \<Rightarrow>
                      and_then (normalizeParticipantId_exn (capture c 2))
                        (\<lambda>participantId.
                           Inr (if participantId = [] \<or> participantId \<notin> activeParticipants
                                then (activeParticipants, processedLines)
                                else (activeParticipants - {participantId},
                                      processedLines @ [currentLine])))
                  | None \<Rightarrow> Inr (activeParticipants, processedLines @ [currentLine]))))"

definition sanitizeSequence_exn :: "string \<Rightarrow> error + string" where
  "sanitizeSequence_exn code =
     and_then (fold_result sequenceStep_exn ({}, []) (split_on nl code))
       (\<lambda>st. Inr (join [nl] (snd st)))"

definition sanitizeMermaidCode_exn :: "string \<Rightarrow> error + string" where
  "sanitizeMermaidCode_exn code =
     (let trimmed = trim code in
      if trimmed = [] then Inr []
      else if startsWith trimmed ''graph'' then normalizeGraphDiagram_exn trimmed
      else if startsWith trimmed ''erDiagram'' then sanitizeErd_exn trimmed
      else if startsWith trimmed ''sequenceDiagram'' then sanitizeSequence_exn trimmed
      else Inr trimmed)"

section \<open>Notions used to state the properties\<close>

text \<open>The code unit before the current position once the text \<open>u\<close> has been consumed.\<close>

definition after :: "char option \<Rightarrow> string \<Rightarrow> char option" where
  "after p u = (if u = [] then p else Some (last u))"

text \<open>
  The specification speaks of the ``very first token'' of the trimmed input. The token is read
  here as the maximal leading run of characters that are not white space.
\<close>

definition spec_first_token :: "string \<Rightarrow> string" where
  "spec_first_token s = takeWhile (\<lambda>c. \<not> is_space c) s"

text \<open>
  What the patterns of the validity classifier accept, without reference to the matcher: the
  keyword \<^verbatim>\<open>graph\<close> in any letter case followed by a white-space character; a non-empty run of
  word characters, then optional white space, then an opening bracket; one of six arrow tokens.
\<close>

definition graph_keyword :: "string \<Rightarrow> bool" where
  "graph_keyword t = (\<exists>g sp rest. t = g @ sp # rest \<and> toLowerCase g = ''graph'' \<and> is_space sp)"

definition node_bracket_pattern :: "string \<Rightarrow> bool" where
  "node_bracket_pattern l =
     (\<exists>pre w ws b post. l = pre @ w @ ws @ b # post \<and> w \<noteq> [] \<and> (\<forall>c\<in>set w. is_word c) \<and>
        (\<forall>c\<in>set ws. is_space c) \<and> (b = CHR ''['' \<or> b = CHR ''('' \<or> b = CHR ''{''))"

definition edge_tokens :: "string list" where
  "edge_tokens = [''-->'', ''---'', ''==>'', ''=>'', ''-.->'', ''-+->'']"

definition edge_arrow_token :: "string \<Rightarrow> bool" where
  "edge_arrow_token l = (\<exists>tok pre post. tok \<in> set edge_tokens \<and> l = pre @ tok @ post)"

text \<open>
  The statement lines of a classified text: the lines of the text, trimmed, that are not empty
  and do not begin, in lower case, with \<^verbatim>\<open>graph\<close> and a space.
\<close>

definition header_line :: "string \<Rightarrow> bool" where
  "header_line l = (\<exists>rest. toLowerCase l = ''graph '' @ rest)"

definition statement_line :: "string \<Rightarrow> string \<Rightarrow> bool" where
  "statement_line t l = (\<exists>raw\<in>set (split_on nl t). l = trim raw \<and> l \<noteq> [] \<and> \<not> header_line l)"

text \<open>
  The node-bracket pattern in the words of the specification: an identifier \<^emph>\<open>immediately\<close>
  followed by an opening bracket, that is, a word character directly before the bracket.
\<close>

definition spec_node_bracket :: "string \<Rightarrow> bool" where
  "spec_node_bracket l =
     list_ex (\<lambda>(a, b). is_word a \<and> (b = CHR ''['' \<or> b = CHR ''('' \<or> b = CHR ''{'')) (zip l (tl l))"

text \<open>
  What the icon test of the node-content formatter accepts: the text begins, in any letter case,
  with \<^verbatim>\<open>fa:\<close> followed by a word character or a hyphen.
\<close>

definition icon_prefix :: "string \<Rightarrow> bool" where
  "icon_prefix t =
     (\<exists>u c rest. t = u @ c # rest \<and> toLowerCase u = ''fa:'' \<and> (is_word c \<or> c = CHR ''-''))"

text \<open>
  The formatter in the words of the specification: an icon-style token is a two-letter
  namespace prefix, a colon and a non-empty token of letters, digits and hyphens; it counts when
  it is followed by white space or by nothing.
\<close>

definition is_alnum :: "char \<Rightarrow> bool" where
  "is_alnum c = (is_alpha c \<or> is_digit c)"

definition spec_icon_split :: "string \<Rightarrow> (string \<times> string) option" where
  "spec_icon_split t =
     (case t of
        a # b # c # rest \<Rightarrow>
          (let tok = takeWhile (\<lambda>x. is_alnum x \<or> x = CHR ''-'') rest;
               remainder = drop (length tok) rest
           in if is_alpha a \<and> is_alpha b \<and> c = CHR '':'' \<and> tok \<noteq> []
                 \<and> (remainder = [] \<or> is_space (hd remainder))
              then Some ([a, b, c] @ tok, remainder) else None)
      | _ \<Rightarrow> None)"

definition spec_formatNodeContent :: "string \<Rightarrow> string" where
  "spec_formatNodeContent raw =
     (if trim raw = [] then [dq, dq]
      else (case spec_icon_split (trim raw) of
              Some (icon, remainder) \<Rightarrow>
                if trim remainder = [] then icon
                else icon @ '' '' @ [dq] @ cleanLabel remainder @ [dq]
            | None \<Rightarrow> [dq] @ cleanLabel (trim raw) @ [dq]))"

text \<open>
  Invariants of the matcher used to bound the characters of a replacement: the rest of the input
  and every captured text of a state, and every segment of a scan, consist of characters of a
  given set.
\<close>

definition caps_in :: "char set \<Rightarrow> caps \<Rightarrow> bool" where
  "caps_in S c = (\<forall>nt\<in>set c. set (snd nt) \<subseteq> S)"

definition state_in :: "char set \<Rightarrow> mstate \<Rightarrow> bool" where
  "state_in S st = (case st of (p, s, c) \<Rightarrow> set s \<subseteq> S \<and> caps_in S c)"

fun seg_in :: "char set \<Rightarrow> seg \<Rightarrow> bool" where
  "seg_in S (Keep x) = (x \<in> S)"
| "seg_in S (Hit m c) = (set m \<subseteq> S \<and> caps_in S c)"

text \<open>
  An un-terminated quote, in the words of the specification: an odd number of double quotes that
  are not escaped, a double quote being escaped when a backslash stands directly before it (the
  test of the statement splitter).
\<close>

fun count_unescaped :: "char option \<Rightarrow> string \<Rightarrow> nat" where
  "count_unescaped p [] = 0"
| "count_unescaped p (x # xs) =
     (if x = dq \<and> p \<noteq> Some bsl then 1 else 0) + count_unescaped (Some x) xs"

definition unterminated_quote :: "string \<Rightarrow> bool" where
  "unterminated_quote s = odd (count_unescaped None s)"

text \<open>The first line of a text: everything before the first line feed.\<close>

definition first_line :: "string \<Rightarrow> string" where
  "first_line s = takeWhile (\<lambda>c. c \<noteq> nl) s"

text \<open>The header line that a header statement determines.\<close>

definition header_of :: "string \<Rightarrow> string" where
  "header_of statement =
     (case rx_match direction_rx statement of
        None \<Rightarrow> ''graph TD''
      | Some (m, c) \<Rightarrow> if toUpperCase (grp c 1) = ''LR'' then ''graph LR'' else ''graph TD'')"

text \<open>
  The last description of a list whose name, trimmed and in lower case, is the given key: what the
  \<^verbatim>\<open>Map\<close> built by \<^verbatim>\<open>ensureScreenDescriptionsMatchDiagram\<close> holds under that key.
\<close>

definition last_match :: "ScreenDescription list \<Rightarrow> string \<Rightarrow> ScreenDescription option" where
  "last_match screens k =
     (let ds = filter (\<lambda>d. screenKey (screenName d) = k) screens
      in if ds = [] then None else Some (last ds))"

text \<open>
  The synchronized list in the words of the specification: a description matches a label when
  the two names are equal up to letter case.
\<close>

definition spec_synchronized :: "string list \<Rightarrow> ScreenDescription list \<Rightarrow> ScreenDescription list" where
  "spec_synchronized labels screens =
     map (\<lambda>l. case List.find (\<lambda>d. toLowerCase (screenName d) = toLowerCase l) screens of
                 Some d \<Rightarrow> d
               | None \<Rightarrow> createPlaceholderScreen l) labels @
     filter (\<lambda>d. \<not> list_ex (\<lambda>l. toLowerCase l = toLowerCase (screenName d)) labels) screens"

text \<open>Sample data: an analysis result with every field empty, and a description with a name.\<close>

definition blankResult :: AnalysisResult where
  "blankResult =
     \<lparr>overview = [], components = [], technologies = [], businessFlowDiagram = [],
      sequenceDiagram = [], screenTransitionDiagram = [], databaseERD = [],
      screenDescriptions = [],
      codeQualityAnalysis = \<lparr>readability = [], extensibility = [], security = []\<rparr>\<rparr>"

definition plainScreen :: "string \<Rightarrow> ScreenDescription" where
  "plainScreen nm =
     \<lparr>screenName = nm, ScreenDescription.description = ''Existing description'',
      uiElements = [], events = [], validations = []\<rparr>"

text \<open>
  The direction word of a header statement: the maximal run of letters after the white space that
  follows the five characters of the keyword.
\<close>

definition direction_word :: "string \<Rightarrow> string" where
  "direction_word statement = takeWhile is_alpha (dropWhile is_space (drop 5 statement))"

text \<open>
  The sequence normalizer in the words of the specification. A name is normalized by stripping
  the quote characters, trimming and lower-casing.
\<close>

definition normalized_name :: "string \<Rightarrow> string" where
  "normalized_name raw = toLowerCase (trim (filter (\<lambda>c. c \<noteq> dq \<and> c \<noteq> sq) raw))"

text \<open>
  An \<^verbatim>\<open>activate <name>\<close> or \<^verbatim>\<open>deactivate <name>\<close> line: optional white space, the keyword in any
  letter case, white space, and a name that runs to the end of the line (to the first line
  terminator). The keyword must be followed by a white-space character and, after it, by some
  character that is not a line terminator. When nothing but white space follows the keyword the
  code captures a run of white space, which normalizes to the empty name; the name is given
  here as empty.
\<close>

definition directive :: "string \<Rightarrow> string \<Rightarrow> string option" where
  "directive kw line =
     (let body = dropWhile is_space line; r = drop (length kw) body in
      if toLowerCase (take (length kw) body) = kw \<and> r \<noteq> [] \<and> is_space (hd r)
         \<and> (\<exists>x\<in>set (tl r). dot x)
      then Some (takeWhile dot (dropWhile is_space r)) else None)"

text \<open>
  The activation set after a line, and the set accumulated from a list of preceding lines. The
  keywords are looked for in the line as it stands after the message-quoting step.
\<close>

definition activation_step :: "string set \<Rightarrow> string \<Rightarrow> string set" where
  "activation_step A line =
     (case directive ''activate'' (quoteMessage line) of
        Some nm \<Rightarrow> if normalized_name nm = [] then A else insert (normalized_name nm) A
      | None \<Rightarrow>
         (case directive ''deactivate'' (quoteMessage line) of
            Some nm \<Rightarrow> A - {normalized_name nm}
          | None \<Rightarrow> A))"

definition activation :: "string list \<Rightarrow> string set" where
  "activation pre = foldl activation_step {} pre"

text \<open>
  A line is dropped when it is a \<^verbatim>\<open>deactivate\<close> line whose normalized name is empty or is not in
  the activation set.
\<close>

definition dropped :: "string set \<Rightarrow> string \<Rightarrow> bool" where
  "dropped A line =
     (case directive ''deactivate'' (quoteMessage line) of
        Some nm \<Rightarrow> normalized_name nm = [] \<or> normalized_name nm \<notin> A
      | None \<Rightarrow> False)"

text \<open>
  The output lines for the lines that follow the lines \<open>pre\<close>: every line is judged against the
  activation set accumulated from the lines before it, and a line that is kept is kept as it
  stands after the message-quoting step.
\<close>

fun sequence_lines :: "string list \<Rightarrow> string list \<Rightarrow> string list" where
  "sequence_lines pre [] = []"
| "sequence_lines pre (line # rest) =
     (if dropped (activation pre) line then [] else [quoteMessage line])
       @ sequence_lines (pre @ [line]) rest"

text \<open>The capture groups that take part in every match of a pattern.\<close>

fun groups :: "rx \<Rightarrow> nat set" where
  "groups (Seq a b) = groups a \<union> groups b"
| "groups (Alt a b) = groups a \<inter> groups b"
| "groups (Grp n a) = insert n (groups a)"
| "groups _ = {}"

section \<open>Basic facts\<close>

lemma startsWith_iff: "startsWith s k \<longleftrightarrow> (\<exists>r. s = k @ r)"
  unfolding startsWith_def
  by (metis append_eq_conv_conj append_take_drop_id)

section \<open>What the matcher accepts\<close>

text \<open>
  Membership in \<open>ms r st\<close>, constructor by constructor, in terms of the text consumed; and the
  search over the start positions.
\<close>

lemma after_simps [simp]: "after p [] = p" "after p (u @ [x]) = Some x" "after p (x # u) = after (Some x) u"
  by (auto simp: after_def)

lemma after_append: "after p (u @ v) = after (after p u) v"
  by (auto simp: after_def)

lemma ms_Ch_iff:
  "st \<in> set (ms (Ch P) (p, s, c)) \<longleftrightarrow> (\<exists>x s'. s = x # s' \<and> P x \<and> st = (Some x, s', c))"
  by (cases s) auto

lemma ms_Seq_iff: "st \<in> set (ms (Seq a b) st0) \<longleftrightarrow> (\<exists>st1 \<in> set (ms a st0). st \<in> set (ms b st1))"
  by auto

lemma ms_Alt_iff: "st \<in> set (ms (Alt a b) st0) \<longleftrightarrow> st \<in> set (ms a st0) \<or> st \<in> set (ms b st0)"
  by auto

lemma ms_Star_iff:
  "st \<in> set (ms (Star P) (p, s, c)) \<longleftrightarrow>
     (\<exists>u s'. s = u @ s' \<and> (\<forall>x\<in>set u. P x) \<and> st = (after p u, s', c))"
proof (induction s arbitrary: p)
  case Nil
  then show ?case by auto
next
  case (Cons x xs)
  show ?case
  proof (cases "P x")
    case False
    then show ?thesis 
      apply (auto simp: Cons_eq_append_conv)
      done
  next
    case True
    show ?thesis
    proof
      assume "st \<in> set (ms (Star P) (p, x # xs, c))"
      then consider "st \<in> set (ms (Star P) (Some x, xs, c))" | "st = (p, x # xs, c)"
        using True by auto
      then show "\<exists>u s'. x # xs = u @ s' \<and> (\<forall>x\<in>set u. P x) \<and> st = (after p u, s', c)"
      proof cases
        case 1
        then obtain u s' where "xs = u @ s'" "\<forall>x\<in>set u. P x" "st = (after (Some x) u, s', c)"
          using Cons.IH by blast
        then show ?thesis using True
          by (intro exI[of _ "x # u"] exI[of _ s']) auto
      next
        case 2
        then show ?thesis by (intro exI[of _ "[]"] exI[of _ "x # xs"]) auto
      qed
    next
      assume "\<exists>u s'. x # xs = u @ s' \<and> (\<forall>x\<in>set u. P x) \<and> st = (after p u, s', c)"
      then obtain u s' where u: "x # xs = u @ s'" "\<forall>x\<in>set u. P x" "st = (after p u, s', c)"
        by blast
      show "st \<in> set (ms (Star P) (p, x # xs, c))"
      proof (cases u)
        case Nil
        then show ?thesis using u True by auto
      next
        case (Cons y u')
        then have "xs = u' @ s'" "y = x" "\<forall>x\<in>set u'. P x" "st = (after (Some x) u', s', c)"
          using u by auto
        then have "st \<in> set (ms (Star P) (Some x, xs, c))" using Cons.IH by blast
        then show ?thesis using True by auto
      qed
    qed
  qed
qed

lemma ms_Lazy_set: "set (ms (Lazy P) st) = set (ms (Star P) st)"
proof -
  have "set (ms (Lazy P) (p, s, c)) = set (ms (Star P) (p, s, c))" for p s c
    by (induction s arbitrary: p) auto
  then show ?thesis by (cases st) auto
qed

lemma ms_Lazy_iff:
  "st \<in> set (ms (Lazy P) (p, s, c)) \<longleftrightarrow>
     (\<exists>u s'. s = u @ s' \<and> (\<forall>x\<in>set u. P x) \<and> st = (after p u, s', c))"
  by (simp only: ms_Lazy_set ms_Star_iff)

lemma ms_lit_iff:
  "st \<in> set (ms (lit k) (p, s, c)) \<longleftrightarrow> (\<exists>s'. s = k @ s' \<and> st = (after p k, s', c))"
proof (induction k arbitrary: p s)
  case Nil
  then show ?case by auto
next
  case (Cons a k)
  show ?case
    by (cases s) (auto simp: Cons.IH)
qed

lemma ms_liti_iff:
  "st \<in> set (ms (liti k) (p, s, c)) \<longleftrightarrow>
     (\<exists>u s'. s = u @ s' \<and> length u = length k \<and> toLowerCase u = toLowerCase k \<and> st = (after p u, s', c))"
proof (induction k arbitrary: p s)
  case Nil
  then show ?case by (auto simp: toLowerCase_def)
next
  case (Cons a k)
  show ?case
  proof (cases s)
    case Nil
    then show ?thesis by (auto simp: toLowerCase_def)
  next
    case (Cons x xs)
    show ?thesis
    proof
      assume "st \<in> set (ms (liti (a # k)) (p, s, c))"
      then have ci: "ci a x" and "st \<in> set (ms (liti k) (Some x, xs, c))"
        using Cons by (auto split: if_splits)
      then obtain u s' where "xs = u @ s'" "length u = length k" "toLowerCase u = toLowerCase k"
          "st = (after (Some x) u, s', c)"
        using Cons.IH by blast
      then show "\<exists>u s'. s = u @ s' \<and> length u = length (a # k) \<and> toLowerCase u = toLowerCase (a # k) \<and> st = (after p u, s', c)"
        using Cons ci by (intro exI[of _ "x # u"] exI[of _ s']) (auto simp: toLowerCase_def ci_def)
    next
      assume "\<exists>u s'. s = u @ s' \<and> length u = length (a # k) \<and> toLowerCase u = toLowerCase (a # k) \<and> st = (after p u, s', c)"
      then obtain u s' where u: "s = u @ s'" "length u = length (a # k)" "toLowerCase u = toLowerCase (a # k)" "st = (after p u, s', c)"
        by blast
      then obtain u' where u': "u = x # u'" using Cons by (cases u) auto
      then have "xs = u' @ s'" "length u' = length k" "toLowerCase u' = toLowerCase k" "ci a x"
          "st = (after (Some x) u', s', c)"
        using u Cons by (auto simp: toLowerCase_def ci_def)
      then have "st \<in> set (ms (liti k) (Some x, xs, c))" using Cons.IH by blast
      then show "st \<in> set (ms (liti (a # k)) (p, s, c))"
        using Cons \<open>ci a x\<close> by auto
    qed
  qed
qed


lemma rx_search_None_iff:
  "rx_search r p s = None \<longleftrightarrow> (\<forall>pre sfx. s = pre @ sfx \<longrightarrow> ms r (after p pre, sfx, []) = [])"
proof (induction s arbitrary: p)
  case Nil
  then show ?case by (auto split: list.splits)
next
  case (Cons x xs)
  show ?case
  proof (cases "ms r (p, x # xs, [])")
    case (Cons st sts)
    then show ?thesis
      apply (cases st) apply (auto)
      by (metis after_simps(1) append_Nil list.distinct(1))
  next
    case Nil
    have "(\<forall>pre sfx. x # xs = pre @ sfx \<longrightarrow> ms r (after p pre, sfx, []) = []) \<longleftrightarrow>
          (\<forall>pre sfx. xs = pre @ sfx \<longrightarrow> ms r (after (Some x) pre, sfx, []) = [])"
      (is "?L \<longleftrightarrow> ?R")
    proof
      assume L: ?L
      show ?R
      proof (intro allI impI)
        fix pre sfx assume "xs = pre @ sfx"
        then have "x # xs = (x # pre) @ sfx" by simp
        from L[rule_format, OF this] show "ms r (after (Some x) pre, sfx, []) = []" by simp
      qed
    next
      assume R: ?R
      show ?L
      proof (intro allI impI)
        fix pre sfx assume e: "x # xs = pre @ sfx"
        show "ms r (after p pre, sfx, []) = []"
        proof (cases pre)
          case Nil
          then show ?thesis using e \<open>ms r (p, x # xs, []) = []\<close> by auto
        next
          case (Cons y pre')
          then have "xs = pre' @ sfx" "y = x" using e by auto
          then show ?thesis using R Cons by auto
        qed
      qed
    qed
    then show ?thesis using Nil Cons.IH[of "Some x"] by (auto split: option.splits)
  qed
qed

lemma rx_test_iff:
  "rx_test r s \<longleftrightarrow> (\<exists>pre sfx st. s = pre @ sfx \<and> st \<in> set (ms r (after None pre, sfx, [])))"
  unfolding rx_test_def rx_search_None_iff
  by (metis all_not_in_conv set_empty)

lemma after_None_eq: "after None pre = None \<longleftrightarrow> pre = []"
  by (auto simp: after_def)

lemma ms_Bol_False_Seq:
  "ms (Seq (Bol False) r) (p, s, c) = (if p = None then ms r (p, s, c) else [])"
  by (cases p) auto

lemma rx_test_anchored:
  "rx_test (Seq (Bol False) r) s \<longleftrightarrow> (\<exists>st. st \<in> set (ms r (None, s, [])))"
proof
  assume "rx_test (Seq (Bol False) r) s"
  then obtain pre sfx st where a: "s = pre @ sfx" "st \<in> set (ms (Seq (Bol False) r) (after None pre, sfx, []))"
    unfolding rx_test_iff by blast
  then have "after None pre = None" 
    unfolding ms_Bol_False_Seq by (auto split: if_splits)
  then have "pre = []" by (simp add: after_None_eq)
  then show "\<exists>st. st \<in> set (ms r (None, s, []))"
    using a unfolding ms_Bol_False_Seq by (cases st) auto
next
  assume "\<exists>st. st \<in> set (ms r (None, s, []))"
  then obtain st where "st \<in> set (ms (Seq (Bol False) r) (after None [], s, []))"
    unfolding ms_Bol_False_Seq by auto
  then show "rx_test (Seq (Bol False) r) s"
    unfolding rx_test_iff by (intro exI[of _ "[]"] exI[of _ s] exI[of _ st]) simp
qed

lemma ms_Plus_iff:
  "st \<in> set (ms (Plus P) (p, s, c)) \<longleftrightarrow>
     (\<exists>u s'. s = u @ s' \<and> u \<noteq> [] \<and> (\<forall>x\<in>set u. P x) \<and> st = (after p u, s', c))"
proof
  assume "st \<in> set (ms (Plus P) (p, s, c))"
  then obtain st1 where "st1 \<in> set (ms (Ch P) (p, s, c))" "st \<in> set (ms (Star P) st1)"
    unfolding Plus_def ms_Seq_iff by blast
  then obtain x s1 u s' where "s = x # s1" "P x" "s1 = u @ s'" "\<forall>x\<in>set u. P x" "st = (after (Some x) u, s', c)"
    unfolding ms_Ch_iff by (auto simp only: ms_Star_iff)
  then show "\<exists>u s'. s = u @ s' \<and> u \<noteq> [] \<and> (\<forall>x\<in>set u. P x) \<and> st = (after p u, s', c)"
    by (intro exI[of _ "x # u"] exI[of _ s']) auto
next
  assume "\<exists>u s'. s = u @ s' \<and> u \<noteq> [] \<and> (\<forall>x\<in>set u. P x) \<and> st = (after p u, s', c)"
  then obtain u s' where u: "s = u @ s'" "u \<noteq> []" "\<forall>x\<in>set u. P x" "st = (after p u, s', c)" by blast
  then obtain x u' where x: "u = x # u'" by (cases u) auto
  have 1: "(Some x, u' @ s', c) \<in> set (ms (Ch P) (p, s, c))"
    unfolding ms_Ch_iff using u x by auto
  have 2: "st \<in> set (ms (Star P) (Some x, u' @ s', c))"
    unfolding ms_Star_iff using u x by auto
  show "st \<in> set (ms (Plus P) (p, s, c))"
    unfolding Plus_def ms_Seq_iff using 1 2 by blast
qed

lemma ms_Grp_iff:
  "st \<in> set (ms (Grp n a) (p, s, c)) \<longleftrightarrow>
     (\<exists>p' s' c'. (p', s', c') \<in> set (ms a (p, s, c)) \<and>
        st = (p', s', (n, take (length s - length s') s) # c'))"
  by (auto simp: image_iff) force+

lemma rx_match_Some_test: "rx_match r s = Some mc \<Longrightarrow> rx_test r s"
  by (auto simp: rx_match_def rx_test_def split: option.splits)

lemma rx_match_None_iff: "rx_match r s = None \<longleftrightarrow> \<not> rx_test r s"
  by (auto simp: rx_match_def rx_test_def split: option.splits)


subsection \<open>The patterns of the validity classifier\<close>

lemma graph_keyword_rx_iff: "rx_test graph_keyword_rx t \<longleftrightarrow> graph_keyword t"
proof
  assume "rx_test graph_keyword_rx t"
  then obtain st where "st \<in> set (ms (Seq (liti ''graph'') (Ch is_space)) (None, t, []))"
    unfolding graph_keyword_rx_def seqs.simps rx_test_anchored by blast
  then obtain st1 where 1: "st1 \<in> set (ms (liti ''graph'') (None, t, []))" and 2: "st \<in> set (ms (Ch is_space) st1)"
    unfolding ms_Seq_iff by blast
  from 1 obtain g s1 where g: "t = g @ s1" "toLowerCase g = toLowerCase ''graph''" "st1 = (after None g, s1, [])"
    unfolding ms_liti_iff by blast
  from 2 obtain sp rest where "s1 = sp # rest" "is_space sp"
    unfolding g(3) ms_Ch_iff by blast
  moreover have "toLowerCase ''graph'' = ''graph''" by code_simp
  ultimately show "graph_keyword t" unfolding graph_keyword_def using g by auto
next
  assume "graph_keyword t"
  then obtain g sp rest where g: "t = g @ sp # rest" "toLowerCase g = ''graph''" "is_space sp"
    unfolding graph_keyword_def by blast
  have lg: "toLowerCase ''graph'' = ''graph''" by code_simp
  have "length (toLowerCase g) = 5" using g(2) by simp
  then have len: "length g = length ''graph''" by (simp add: toLowerCase_def)
  have 1: "(after None g, sp # rest, []) \<in> set (ms (liti ''graph'') (None, t, []))"
    unfolding ms_liti_iff using g len lg by auto
  have 2: "(Some sp, rest, []) \<in> set (ms (Ch is_space) (after None g, sp # rest, []))"
    unfolding ms_Ch_iff using g by auto
  have "(Some sp, rest, []) \<in> set (ms (Seq (liti ''graph'') (Ch is_space)) (None, t, []))"
    unfolding ms_Seq_iff using 1 2 by blast
  then show "rx_test graph_keyword_rx t"
    unfolding graph_keyword_rx_def seqs.simps rx_test_anchored by blast
qed

lemma has_node_rx_unfold:
  "has_node_rx = Seq (Plus is_word) (Seq (Star is_space)
      (Alt (Ch ((=) CHR ''['')) (Alt (Ch ((=) CHR ''('')) (Ch ((=) CHR ''{'')))))"
  by (simp add: has_node_rx_def)

lemma has_node_rx_iff: "rx_test has_node_rx l \<longleftrightarrow> node_bracket_pattern l"
proof
  assume "rx_test has_node_rx l"
  then obtain pre sfx st where l: "l = pre @ sfx" and st: "st \<in> set (ms has_node_rx (after None pre, sfx, []))"
    unfolding rx_test_iff by blast
  from st obtain st1 where
    1: "st1 \<in> set (ms (Plus is_word) (after None pre, sfx, []))" and
    r1: "st \<in> set (ms (Seq (Star is_space)
      (Alt (Ch ((=) CHR ''['')) (Alt (Ch ((=) CHR ''('')) (Ch ((=) CHR ''{''))))) st1)"
    unfolding has_node_rx_unfold by (subst (asm) ms_Seq_iff) blast
  from r1 obtain st2 where
    2: "st2 \<in> set (ms (Star is_space) st1)" and
    r2: "st \<in> set (ms (Alt (Ch ((=) CHR ''['')) (Alt (Ch ((=) CHR ''('')) (Ch ((=) CHR ''{'')))) st2)"
    by (subst (asm) ms_Seq_iff) blast
  from 1 obtain w s1 where w: "sfx = w @ s1" "w \<noteq> []" "\<forall>x\<in>set w. is_word x" 
      "st1 = (after (after None pre) w, s1, [])"
    unfolding ms_Plus_iff by blast
  from 2 obtain ws s2 where ws: "s1 = ws @ s2" "\<forall>x\<in>set ws. is_space x"
      "st2 = (after (after (after None pre) w) ws, s2, [])"
    unfolding w(4) ms_Star_iff by blast
  from r2 have "\<exists>b post. s2 = b # post \<and> (b = CHR ''['' \<or> b = CHR ''('' \<or> b = CHR ''{'')"
    unfolding ws(3) ms_Alt_iff ms_Ch_iff by blast
  then obtain b post where b: "s2 = b # post" "b = CHR ''['' \<or> b = CHR ''('' \<or> b = CHR ''{''"
    by blast
  have "l = pre @ w @ ws @ b # post" using l w(1) ws(1) b(1) by simp
  then show "node_bracket_pattern l"
    unfolding node_bracket_pattern_def using w(2,3) ws(2) b(2)
    by (intro exI[of _ pre] exI[of _ w] exI[of _ ws] exI[of _ b] exI[of _ post]) simp
next
  assume "node_bracket_pattern l"
  then obtain pre w ws b post where l: "l = pre @ w @ ws @ b # post" "w \<noteq> []" "\<forall>c\<in>set w. is_word c"
        "\<forall>c\<in>set ws. is_space c" "b = CHR ''['' \<or> b = CHR ''('' \<or> b = CHR ''{''"
    unfolding node_bracket_pattern_def by blast
  let ?p = "after None pre"
  have 1: "(after ?p w, ws @ b # post, []) \<in> set (ms (Plus is_word) (?p, w @ ws @ b # post, []))"
    unfolding ms_Plus_iff using l(2,3) by (intro exI[of _ w] exI[of _ "ws @ b # post"]) simp
  have 2: "(after (after ?p w) ws, b # post, []) \<in> set (ms (Star is_space) (after ?p w, ws @ b # post, []))"
    unfolding ms_Star_iff using l(4) by (intro exI[of _ ws] exI[of _ "b # post"]) simp
  have 3: "(Some b, post, []) \<in> set (ms (Alt (Ch ((=) CHR ''['')) (Alt (Ch ((=) CHR ''('')) (Ch ((=) CHR ''{''))))
              (after (after ?p w) ws, b # post, []))"
    using l(5) by auto
  have "(Some b, post, []) \<in> set (ms has_node_rx (?p, w @ ws @ b # post, []))"
    unfolding has_node_rx_unfold 
    apply (subst ms_Seq_iff)
    apply (rule bexI[OF _ 1])
    apply (subst ms_Seq_iff)
    apply (rule bexI[OF _ 2])
    apply (rule 3)
    done
  then show "rx_test has_node_rx l" unfolding rx_test_iff using l(1) by blast
qed

lemma has_edge_rx_unfold:
  "has_edge_rx = Alt (lit ''-->'') (Alt (lit ''---'') (Alt (lit ''==>'') (Alt (lit ''=>'')
       (Alt (lit ''-.->'') (lit ''-+->'')))))"
  by (simp only: has_edge_rx_def alts.simps)

lemma ms_has_edge_iff:
  "(\<exists>st. st \<in> set (ms has_edge_rx (p, sfx, c))) \<longleftrightarrow> (\<exists>tok post. tok \<in> set edge_tokens \<and> sfx = tok @ post)"
  unfolding has_edge_rx_unfold edge_tokens_def
  by (simp only: ms_Alt_iff ms_lit_iff ex_disj_distrib set_simps insert_iff empty_iff simp_thms
        conj_disj_distribR ex_simps)
     blast

lemma has_edge_rx_iff: "rx_test has_edge_rx l \<longleftrightarrow> edge_arrow_token l"
proof
  assume "rx_test has_edge_rx l"
  then obtain pre sfx st where l: "l = pre @ sfx" and "st \<in> set (ms has_edge_rx (after None pre, sfx, []))"
    unfolding rx_test_iff by blast
  then have "\<exists>tok post. tok \<in> set edge_tokens \<and> sfx = tok @ post"
    using ms_has_edge_iff by blast
  then show "edge_arrow_token l"
    unfolding edge_arrow_token_def using l by blast
next
  assume "edge_arrow_token l"
  then obtain tok pre post where t: "tok \<in> set edge_tokens" "l = pre @ tok @ post"
    unfolding edge_arrow_token_def by blast
  then have "\<exists>st. st \<in> set (ms has_edge_rx (after None pre, tok @ post, []))"
    using ms_has_edge_iff by blast
  then show "rx_test has_edge_rx l" unfolding rx_test_iff using t(2) by blast
qed

lemma statementLines_iff: "l \<in> set (statementLines t) \<longleftrightarrow> statement_line t l"
  by (auto simp: statementLines_def statement_line_def header_line_def startsWith_iff)

subsection \<open>The activation patterns of the sequence normalizer\<close>

lemma keyword_line:
  assumes "rx_test (Seq (Bol False) (Seq (Grp 1 (Star is_space)) (Seq (liti kw) r))) s"
  shows "\<exists>ws k rest. s = ws @ k @ rest \<and> (\<forall>x\<in>set ws. is_space x) \<and> length k = length kw
           \<and> toLowerCase k = toLowerCase kw"
proof -
  from assms obtain st where "st \<in> set (ms (Seq (Grp 1 (Star is_space)) (Seq (liti kw) r)) (None, s, []))"
    unfolding rx_test_anchored by blast
  then obtain st1 where 1: "st1 \<in> set (ms (Grp 1 (Star is_space)) (None, s, []))"
      and r1: "st \<in> set (ms (Seq (liti kw) r) st1)"
    by (subst (asm) ms_Seq_iff) blast
  from r1 obtain st2 where 2: "st2 \<in> set (ms (liti kw) st1)"
    by (subst (asm) ms_Seq_iff) blast
  from 1 obtain p' s' c' where g: "(p', s', c') \<in> set (ms (Star is_space) (None, s, []))"
     "st1 = (p', s', (1, take (length s - length s') s) # c')"
    unfolding ms_Grp_iff by blast
  from g(1) obtain ws where ws: "s = ws @ s'" "\<forall>x\<in>set ws. is_space x"
    unfolding ms_Star_iff by blast
  from 2 obtain k rest where "s' = k @ rest" "length k = length kw" "toLowerCase k = toLowerCase kw"
    unfolding g(2) ms_liti_iff by blast
  then show ?thesis using ws by blast
qed

lemma lower_char_not_space: "is_lower (lower_char x) \<Longrightarrow> \<not> is_space x"
  by (auto simp: is_space_def lower_char_def is_lower_def is_upper_def is_upper_latin1_def)

lemma space_prefix_unique:
  assumes "ws @ x # r = ws' @ y # r'" "\<forall>c\<in>set ws. is_space c" "\<forall>c\<in>set ws'. is_space c"
    "\<not> is_space x" "\<not> is_space y"
  shows "x = y"
proof -
  have "takeWhile is_space (ws @ x # r) = ws" using assms(2,4) by (simp add: takeWhile_tail)
  moreover have "takeWhile is_space (ws' @ y # r') = ws'" using assms(3,5) by (simp add: takeWhile_tail)
  ultimately have "ws = ws'" using assms(1) by simp
  then show ?thesis using assms(1) by simp
qed

lemma deactivate_not_activate:
  assumes "rx_test deactivate_rx s"
  shows "\<not> rx_test activate_rx s"
proof
  assume "rx_test activate_rx s"
  then obtain ws k rest where a: "s = ws @ k @ rest" "\<forall>x\<in>set ws. is_space x"
      "length k = length ''activate''" "toLowerCase k = toLowerCase ''activate''"
    using keyword_line [of "''activate''" _ s] unfolding activate_rx_def seqs.simps by blast
  from assms obtain ws' k' rest' where d: "s = ws' @ k' @ rest'" "\<forall>x\<in>set ws'. is_space x"
      "length k' = length ''deactivate''" "toLowerCase k' = toLowerCase ''deactivate''"
    using keyword_line [of "''deactivate''" _ s] unfolding deactivate_rx_def seqs.simps by blast
  obtain x k1 where k: "k = x # k1" using a(3) by (cases k) auto
  obtain y k1' where k': "k' = y # k1'" using d(3) by (cases k') auto
  have la: "toLowerCase ''activate'' = ''activate''" by code_simp
  have ld: "toLowerCase ''deactivate'' = ''deactivate''" by code_simp
  have x: "lower_char x = CHR ''a''" using a(4) k la by (simp add: toLowerCase_def)
  have y: "lower_char y = CHR ''d''" using d(4) k' ld by (simp add: toLowerCase_def)
  have nx: "\<not> is_space x"
    by (rule lower_char_not_space) (simp add: x is_lower_def)
  have ny: "\<not> is_space y"
    by (rule lower_char_not_space) (simp add: y is_lower_def)
  have "ws @ x # (k1 @ rest) = ws' @ y # (k1' @ rest')" using a(1) d(1) k k' by simp
  then have "x = y" by (rule space_prefix_unique) (use a(2) d(2) nx ny in auto)
  then show False using x y by simp
qed

subsection \<open>The icon pattern of the node-content formatter\<close>

lemma icon_rx_iff: "rx_test icon_rx t \<longleftrightarrow> icon_prefix t"
proof
  assume "rx_test icon_rx t"
  then obtain st where "st \<in> set (ms (Seq (liti ''fa:'') (Plus (\<lambda>c. is_word c \<or> c = CHR ''-''))) (None, t, []))"
    unfolding icon_rx_def seqs.simps rx_test_anchored by blast
  then obtain st1 where 1: "st1 \<in> set (ms (liti ''fa:'') (None, t, []))"
      and 2: "st \<in> set (ms (Plus (\<lambda>c. is_word c \<or> c = CHR ''-'')) st1)"
    by (subst (asm) ms_Seq_iff) blast
  from 1 obtain u s1 where u: "t = u @ s1" "toLowerCase u = toLowerCase ''fa:''" "st1 = (after None u, s1, [])"
    unfolding ms_liti_iff by blast
  from 2 obtain w s2 where w: "s1 = w @ s2" "w \<noteq> []" "\<forall>x\<in>set w. is_word x \<or> x = CHR ''-''"
    unfolding u(3) ms_Plus_iff by blast
  obtain c w' where c: "w = c # w'" using w(2) by (cases w) auto
  have l: "toLowerCase ''fa:'' = ''fa:''" by code_simp
  have "t = u @ c # (w' @ s2)" using u(1) w(1) c by simp
  moreover have "is_word c \<or> c = CHR ''-''" using w(3) c by simp
  ultimately show "icon_prefix t" unfolding icon_prefix_def using u(2) l by metis
next
  assume "icon_prefix t"
  then obtain u c rest where t: "t = u @ c # rest" "toLowerCase u = ''fa:''" "is_word c \<or> c = CHR ''-''"
    unfolding icon_prefix_def by blast
  have l: "toLowerCase ''fa:'' = ''fa:''" by code_simp
  have "length (toLowerCase u) = 3" using t(2) by simp
  then have len: "length u = length ''fa:''" by (simp add: toLowerCase_def)
  have 1: "(after None u, c # rest, []) \<in> set (ms (liti ''fa:'') (None, t, []))"
    unfolding ms_liti_iff using t len l by (intro exI[of _ u] exI[of _ "c # rest"]) simp
  have 2: "(Some c, rest, []) \<in> set (ms (Plus (\<lambda>c. is_word c \<or> c = CHR ''-'')) (after None u, c # rest, []))"
    unfolding ms_Plus_iff using t(3) by (intro exI[of _ "[c]"] exI[of _ rest]) simp
  have "(Some c, rest, []) \<in> set (ms (Seq (liti ''fa:'') (Plus (\<lambda>c. is_word c \<or> c = CHR ''-''))) (None, t, []))"
    apply (subst ms_Seq_iff)
    apply (rule bexI[OF _ 1])
    apply (rule 2)
    done
  then show "rx_test icon_rx t"
    unfolding icon_rx_def seqs.simps rx_test_anchored by blast
qed

section \<open>Characters of a replacement\<close>

lemma set_trim: "set (trim s) \<subseteq> set s"
  unfolding trim_def by (metis set_dropWhileD set_rev subsetI)

lemma state_in_simp [simp]: "state_in S (p, s, c) \<longleftrightarrow> set s \<subseteq> S \<and> caps_in S c"
  by (simp add: state_in_def)

lemma caps_in_Cons [simp]: "caps_in S ((n, t) # c) \<longleftrightarrow> set t \<subseteq> S \<and> caps_in S c"
  by (auto simp: caps_in_def)

lemma caps_in_Nil [simp]: "caps_in S []"
  by (simp add: caps_in_def)

lemma ms_state_in: "st' \<in> set (ms r st) \<Longrightarrow> state_in S st \<Longrightarrow> state_in S st'"
proof (induction r st arbitrary: st' rule: ms.induct)
  case (4 a b st)
  from 4(3) obtain x where x: "x \<in> set (ms a st)" and st': "st' \<in> set (ms b x)"
    by auto
  have "state_in S x" using 4(1)[OF x 4(4)] .
  then show ?case using 4(2)[OF x st'] by simp
next
  case (7 P p x xs c)
  then show ?case by (cases st') (fastforce split: if_splits)
next
  case (9 P p x xs c)
  then show ?case by (cases st') (fastforce split: if_splits)
next
  case (10 n a p s c)
  from 10(2) obtain p' s' c' where m: "(p', s', c') \<in> set (ms a (p, s, c))"
      and st': "st' = (p', s', (n, take (length s - length s') s) # c')"
    by auto
  have "state_in S (p', s', c')" using 10(1)[OF m 10(3)] .
  moreover have "set (take (length s - length s') s) \<subseteq> S"
    using 10(3) by (meson order_trans set_take_subset state_in_simp)
  ultimately show ?case using st' by simp
qed (auto split: if_splits option.splits list.splits)

lemma ms_hd_state_in:
  assumes "ms r (p, s, []) = (p', s', c) # rest" "set s \<subseteq> S"
  shows "caps_in S c"
proof -
  have "(p', s', c) \<in> set (ms r (p, s, []))" using assms(1) by simp
  then have "state_in S (p', s', c)" using ms_state_in assms(2) by (metis caps_in_Nil state_in_simp)
  then show ?thesis by simp
qed

lemma rx_scan_seg_in: "set s \<subseteq> S \<Longrightarrow> g \<in> set (rx_scan r k p s) \<Longrightarrow> seg_in S g"
proof (induction s arbitrary: k p g)
  case Nil
  show ?case
  proof (cases "ms r (p, [], [])")
    case Nil
    then have "rx_scan r k p [] = []" by simp
    then show ?thesis using Nil.prems(2) by simp
  next
    case (Cons st sts)
    obtain p' s' c where st: "st = (p', s', c)" by (cases st)
    have c: "caps_in S c" using ms_hd_state_in[of r p "[]" p' s' c sts S] Cons st by simp
    have "rx_scan r k p [] = (if k = 0 then [Hit [] c] else [])" using Cons st by simp
    then have "g = Hit [] c" using Nil.prems(2) by (simp split: if_splits)
    then show ?thesis using c by simp
  qed
next
  case (Cons x xs)
  have xs: "set xs \<subseteq> S" and x: "x \<in> S" using Cons.prems(1) by auto
  note IH = Cons.IH[OF xs]
  show ?case
  proof (cases "0 < k")
    case True
    then have "rx_scan r k p (x # xs) = rx_scan r (k - 1) (Some x) xs" by simp
    then show ?thesis using IH Cons.prems(2) by simp
  next
    case False
    show ?thesis
    proof (cases "ms r (p, x # xs, [])")
      case Nil
      then have "rx_scan r k p (x # xs) = Keep x # rx_scan r 0 (Some x) xs" using False by simp
      then show ?thesis using IH Cons.prems(2) x by auto
    next
      case (Cons st sts)
      obtain p' s' c where st: "st = (p', s', c)" by (cases st)
      have c: "caps_in S c"
        using ms_hd_state_in[of r p "x # xs" p' s' c sts S] Cons st Cons.prems(1) by simp
      have m: "set (take (length (x # xs) - length s') (x # xs)) \<subseteq> S"
        using Cons.prems(1) by (meson order_trans set_take_subset)
      have "rx_scan r k p (x # xs) =
              Hit (take (length (x # xs) - length s') (x # xs)) c #
                (if length (x # xs) - length s' = 0 then Keep x # rx_scan r 0 (Some x) xs
                 else rx_scan r (length (x # xs) - length s' - 1) (Some x) xs)"
        using False Cons st by (simp add: Let_def)
      then have "g = Hit (take (length (x # xs) - length s') (x # xs)) c \<or> g = Keep x
          \<or> g \<in> set (rx_scan r 0 (Some x) xs)
          \<or> g \<in> set (rx_scan r (length (x # xs) - length s' - 1) (Some x) xs)"
        using Cons.prems(2) by (auto split: if_splits)
      then show ?thesis using IH c m x by auto
    qed
  qed
qed

lemma rx_replace_avoid:
  assumes "z \<notin> set s" "\<And>m c. z \<notin> set m \<Longrightarrow> caps_in (- {z}) c \<Longrightarrow> z \<notin> set (f m c)"
  shows "z \<notin> set (rx_replace r f s)"
proof -
  have s: "set s \<subseteq> - {z}" using assms(1) by auto
  have "z \<notin> set (seg_text f g)" if "g \<in> set (rx_scan r 0 None s)" for g
  proof -
    have "seg_in (- {z}) g" using rx_scan_seg_in[OF s that] .
    then show ?thesis using assms(2) by (cases g) auto
  qed
  then show ?thesis unfolding rx_replace_def by auto
qed

lemma grp_avoid: "caps_in (- {z}) c \<Longrightarrow> z \<notin> set (grp c n)"
proof (cases "map_of c n")
  case None
  then show ?thesis by (simp add: grp_def)
next
  case (Some t)
  assume c: "caps_in (- {z}) c"
  have "(n, t) \<in> set c" using Some by (rule map_of_SomeD)
  then have "set t \<subseteq> - {z}" using c unfolding caps_in_def by force
  then show ?thesis using Some by (auto simp: grp_def)
qed

lemma trim_avoid: "z \<notin> set s \<Longrightarrow> z \<notin> set (trim s)"
  using set_trim by blast

lemma replace_char_avoid: "z \<notin> set s \<Longrightarrow> z \<notin> set t \<Longrightarrow> z \<notin> set (replace_char k t s)"
  by (auto simp: replace_char_def split: if_splits)

lemma escapeLabel_avoid: "z \<notin> set s \<Longrightarrow> z \<noteq> dq \<Longrightarrow> z \<noteq> bsl \<Longrightarrow> z \<notin> set (escapeLabel s)"
  unfolding escapeLabel_def by (intro replace_char_avoid) auto

lemma strip_underscores_avoid: "z \<notin> set s \<Longrightarrow> z \<notin> set (strip_underscores s)"
  unfolding strip_underscores_def by (metis set_dropWhileD set_rev)

lemma slice_avoid: "z \<notin> set s \<Longrightarrow> z \<notin> set (slice a b s)"
  unfolding slice_def by (meson in_set_dropD in_set_takeD)

lemma cleanLabel_avoid:
  assumes "z \<notin> set s" "z \<noteq> dq" "z \<noteq> bsl"
  shows "z \<notin> set (cleanLabel s)"
proof -
  have t: "z \<notin> set (trim s)" using assms(1) by (rule trim_avoid)
  have "z \<notin> set (escapeLabel (trim (strip_underscores u)))" if "z \<notin> set u" for u
    using that assms(2,3) by (intro escapeLabel_avoid trim_avoid strip_underscores_avoid)
  then show ?thesis
    unfolding cleanLabel_def Let_def using t slice_avoid[OF t] by auto
qed

lemma formatNodeContent_avoid:
  assumes "z \<notin> set s" "z \<noteq> dq" "z \<noteq> bsl" "z \<noteq> CHR '' ''"
  shows "z \<notin> set (formatNodeContent s)"
proof -
  have t: "z \<notin> set (trim s)" using assms(1) by (rule trim_avoid)
  have i: "z \<notin> set (first_ws_piece (trim s))"
    unfolding first_ws_piece_def using t by (meson set_takeWhileD)
  have r: "z \<notin> set (trim (drop n (trim s)))" for n
    using t by (intro trim_avoid) (meson in_set_dropD)
  show ?thesis
    unfolding formatNodeContent_def Let_def
    using t i r cleanLabel_avoid[OF _ assms(2,3)] assms(2,4) by auto
qed

lemma semicolon_facts:
  "CHR '';'' \<noteq> dq" "CHR '';'' \<noteq> bsl" "CHR '';'' \<noteq> CHR '' ''" "CHR '';'' \<noteq> CHR ''|''"
  "CHR '';'' \<noteq> CHR ''['' " "CHR '';'' \<noteq> CHR '']''" "CHR '';'' \<noteq> CHR ''(''" "CHR '';'' \<noteq> CHR '')''"
  "CHR '';'' \<noteq> CHR ''{''" "CHR '';'' \<noteq> CHR ''}''"
  by simp_all

lemma formatNodes_semicolon:
  assumes "CHR '';'' \<notin> set s" "br \<in> set NODE_BRACKETS"
  shows "CHR '';'' \<notin> set (formatNodes s br)"
proof -
  obtain opn cls where br: "br = (opn, cls)" by (cases br)
  have oc: "CHR '';'' \<noteq> opn" "CHR '';'' \<noteq> cls"
    using assms(2) br by (auto simp: NODE_BRACKETS_def)
  show ?thesis
    unfolding formatNodes_def br prod.case
  proof (rule rx_replace_avoid[OF assms(1)])
    fix m c assume "caps_in (- {CHR '';''}) c"
    then have "CHR '';'' \<notin> set (grp c 1)" "CHR '';'' \<notin> set (grp c 2)"
      by (rule grp_avoid)+
    then show "CHR '';'' \<notin> set (grp c 1 @ [opn] @ formatNodeContent (grp c 2) @ [cls])"
      using oc formatNodeContent_avoid[OF _ semicolon_facts(1,2,3)] by auto
  qed
qed

lemma normalizeLine_semicolon: "CHR '';'' \<notin> set (normalizeLine l)"
proof -
  let ?n = "trim (filter (\<lambda>c. c \<noteq> CHR '';'') l)"
  have n: "CHR '';'' \<notin> set ?n" by (rule trim_avoid) simp
  have n1: "CHR '';'' \<notin> set (rx_replace dangling_rx (\<lambda>m c. []) ?n)"
    by (rule rx_replace_avoid[OF n]) simp
  have n2: "CHR '';'' \<notin> set (foldl formatNodes (rx_replace dangling_rx (\<lambda>m c. []) ?n) NODE_BRACKETS)"
  proof -
    have "CHR '';'' \<notin> set (foldl formatNodes s bs)" if "CHR '';'' \<notin> set s" "set bs \<subseteq> set NODE_BRACKETS" for s bs
      using that
    proof (induction bs arbitrary: s)
      case Nil
      then show ?case by simp
    next
      case (Cons b bs)
      then show ?case using formatNodes_semicolon by simp
    qed
    then show ?thesis using n1 by simp
  qed
  have n3: "CHR '';'' \<notin> set (rx_replace edge_label_rx
              (\<lambda>m c. grp c 1 @ ''|'' @ [dq] @ cleanLabel (grp c 2) @ [dq] @ ''|'') s)"
    if "CHR '';'' \<notin> set s" for s
  proof (rule rx_replace_avoid[OF that])
    fix m c assume "caps_in (- {CHR '';''}) c"
    then have "CHR '';'' \<notin> set (grp c 1)" "CHR '';'' \<notin> set (grp c 2)"
      by (rule grp_avoid)+
    then show "CHR '';'' \<notin> set (grp c 1 @ ''|'' @ [dq] @ cleanLabel (grp c 2) @ [dq] @ ''|'')"
      using cleanLabel_avoid[OF _ semicolon_facts(1,2)] by auto
  qed
  show ?thesis
    unfolding normalizeLine_def Let_def using n3[OF n2] by simp
qed

lemma headerStep_header:
  "fst st = ''graph TD'' \<or> fst st = ''graph LR'' \<Longrightarrow>
   fst (headerStep st x) = ''graph TD'' \<or> fst (headerStep st x) = ''graph LR''"
  by (cases st) (auto simp: headerStep_def Let_def)

lemma foldl_headerStep_header:
  "fst st = ''graph TD'' \<or> fst st = ''graph LR'' \<Longrightarrow>
   fst (foldl headerStep st xs) = ''graph TD'' \<or> fst (foldl headerStep st xs) = ''graph LR''"
proof (induction xs arbitrary: st)
  case Nil
  then show ?case by simp
next
  case (Cons x xs)
  show ?case using Cons.IH[OF headerStep_header[OF Cons.prems]] by simp
qed

lemma join_avoid: "z \<notin> set sep \<Longrightarrow> (\<forall>l\<in>set ls. z \<notin> set l) \<Longrightarrow> z \<notin> set (join sep ls)"
  by (induction sep ls rule: join.induct) auto

section \<open>Statement splitter and header of the flow-graph normalizer\<close>

lemma dropWhile_all_iff: "(\<forall>x\<in>set (dropWhile P xs). P x) \<longleftrightarrow> dropWhile P xs = []"
proof
  assume a: "\<forall>x\<in>set (dropWhile P xs). P x"
  show "dropWhile P xs = []"
  proof (rule ccontr)
    assume n: "dropWhile P xs \<noteq> []"
    then have "\<not> P (hd (dropWhile P xs))" by (rule hd_dropWhile)
    moreover have "hd (dropWhile P xs) \<in> set (dropWhile P xs)" using n by (rule hd_in_set)
    ultimately show False using a by blast
  qed
next
  assume "dropWhile P xs = []"
  then have "set (dropWhile P xs) = {}" by (simp only: set_empty)
  then show "\<forall>x\<in>set (dropWhile P xs). P x" by (metis empty_iff)
qed

lemma trim_eq_Nil_iff: "trim s = [] \<longleftrightarrow> (\<forall>c\<in>set s. is_space c)"
proof -
  have "trim s = [] \<longleftrightarrow> dropWhile is_space (rev (dropWhile is_space s)) = []"
    by (simp add: trim_def)
  also have "\<dots> \<longleftrightarrow> (\<forall>x\<in>set (dropWhile is_space s). is_space x)"
    by (simp only: dropWhile_eq_Nil_conv set_rev)
  also have "\<dots> \<longleftrightarrow> dropWhile is_space s = []"
    by (rule dropWhile_all_iff)
  also have "\<dots> \<longleftrightarrow> (\<forall>c\<in>set s. is_space c)"
    by (rule dropWhile_eq_Nil_conv)
  finally show ?thesis .
qed

lemma splitLoop_nonempty:
  "splitLoop p s (stmts, cur, q) = (stmts', cur', q') \<Longrightarrow> stmts \<noteq> [] \<or> trim cur \<noteq> [] \<Longrightarrow>
   stmts' \<noteq> [] \<or> trim cur' \<noteq> []"
proof (induction s arbitrary: p stmts cur q)
  case Nil
  then show ?case by simp
next
  case (Cons ch rest)
  define q1 where "q1 = (if ch = dq \<and> p \<noteq> Some bsl then \<not> q else q)"
  have step: "splitLoop p (ch # rest) (stmts, cur, q) =
      (if \<not> q1 \<and> (ch = nl \<or> ch = CHR '';'')
       then splitLoop (Some ch) rest (push_trimmed stmts cur, [], q1)
       else splitLoop (Some ch) rest (stmts, cur @ [ch], q1))"
    by (simp add: Let_def q1_def)
  show ?case
  proof (cases "\<not> q1 \<and> (ch = nl \<or> ch = CHR '';'')")
    case True
    have e: "splitLoop (Some ch) rest (push_trimmed stmts cur, [], q1) = (stmts', cur', q')"
      using Cons.prems(1) unfolding step if_P[OF True] .
    have "push_trimmed stmts cur \<noteq> []" using Cons.prems(2) by (auto simp: push_trimmed_def)
    then show ?thesis using Cons.IH[OF e] by simp
  next
    case False
    have e: "splitLoop (Some ch) rest (stmts, cur @ [ch], q1) = (stmts', cur', q')"
      using Cons.prems(1) unfolding step if_not_P[OF False] .
    have "stmts \<noteq> [] \<or> trim (cur @ [ch]) \<noteq> []"
      using Cons.prems(2) by (auto simp: trim_eq_Nil_iff)
    then show ?thesis using Cons.IH[OF e] by simp
  qed
qed

lemma splitStatements_nonempty:
  assumes "\<not> is_space x" "x \<noteq> dq" "x \<noteq> nl" "x \<noteq> CHR '';''"
  shows "splitStatements (x # rest) \<noteq> []"
proof -
  obtain stmts cur q where e: "splitLoop (Some x) rest ([], [x], False) = (stmts, cur, q)"
    by (cases "splitLoop (Some x) rest ([], [x], False)")
  have "trim [x] \<noteq> []" using assms(1) by (simp add: trim_eq_Nil_iff)
  then have "stmts \<noteq> [] \<or> trim cur \<noteq> []" using splitLoop_nonempty[OF e] by simp
  then have "push_trimmed stmts cur \<noteq> []" by (auto simp: push_trimmed_def)
  then show ?thesis using e assms by (simp add: splitStatements_def Let_def)
qed

lemma headerStep_fst:
  "fst (headerStep (h, b, f) x) = (if \<not> f \<and> rx_test header_rx x then header_of x else h)"
  "snd (snd (headerStep (h, b, f) x)) = (f \<or> rx_test header_rx x)"
  by (auto simp: headerStep_def header_of_def Let_def split: option.splits)

lemma foldl_headerStep_found: "fst (foldl headerStep (h, b, True) xs) = h"
proof (induction xs arbitrary: b)
  case Nil
  then show ?case by simp
next
  case (Cons x xs)
  have "headerStep (h, b, True) x = (h, b @ [x], True)" by (simp add: headerStep_def)
  then show ?case using Cons.IH by simp
qed

lemma foldl_headerStep_find:
  "fst (foldl headerStep (h, b, False) xs) =
     (case List.find (rx_test header_rx) xs of None \<Rightarrow> h | Some st \<Rightarrow> header_of st)"
proof (induction xs arbitrary: b)
  case Nil
  then show ?case by simp
next
  case (Cons x xs)
  show ?case
  proof (cases "rx_test header_rx x")
    case True
    obtain h' b' where e: "headerStep (h, b, False) x = (h', b', True)"
      using headerStep_fst(2)[of h b False x] True by (cases "headerStep (h, b, False) x") auto
    have "h' = header_of x" using headerStep_fst(1)[of h b False x] True e by simp
    then show ?thesis using True e foldl_headerStep_found by simp
  next
    case False
    then have "headerStep (h, b, False) x = (h, b @ [x], False)" by (simp add: headerStep_def)
    then show ?thesis using False Cons.IH by simp
  qed
qed

lemma first_line_join:
  "nl \<notin> set h \<Longrightarrow> first_line (join [nl] (h # ls)) = h"
  by (cases ls) (auto simp: first_line_def takeWhile_tail)

section \<open>The fallback diagrams and the validity classifier\<close>

lemma split_on_nonempty: "split_on d s \<noteq> []"
  by (induction s) (auto split: list.splits)

lemma split_on_append:
  "split_on d (a @ d # b) = split_on d a @ split_on d b"
proof (induction a)
  case Nil
  then show ?case by simp
next
  case (Cons x a)
  then show ?case using split_on_nonempty[of d a] by (auto split: list.splits)
qed

lemma split_on_absent: "d \<notin> set s \<Longrightarrow> split_on d s = [s]"
  by (induction s) auto

lemma split_on_join:
  "ls \<noteq> [] \<Longrightarrow> split_on d (join [d] ls) = concat (map (split_on d) ls)"
proof (induction "[d]" ls rule: join.induct)
  case 1
  then show ?case by simp
next
  case (2 l)
  then show ?case by simp
next
  case (3 l m ls)
  then show ?case by (simp add: split_on_append)
qed

lemma line_in_split_join:
  assumes "l \<in> set ls" "d \<notin> set l"
  shows "l \<in> set (split_on d (join [d] ls))"
proof -
  have "ls \<noteq> []" using assms(1) by auto
  then have "set (split_on d (join [d] ls)) = (\<Union>x\<in>set ls. set (split_on d x))"
    by (simp add: split_on_join)
  moreover have "l \<in> set (split_on d l)" using assms(2) by (simp add: split_on_absent)
  ultimately show ?thesis using assms(1) by blast
qed

lemma join_eq_Nil: "ls \<noteq> [] \<Longrightarrow> last ls \<noteq> [] \<Longrightarrow> join sep ls \<noteq> []"
  by (induction sep ls rule: join.induct) auto

lemma last_join: "ls \<noteq> [] \<Longrightarrow> last ls \<noteq> [] \<Longrightarrow> last (join sep ls) = last (last ls)"
proof (induction sep ls rule: join.induct)
  case (1 sep)
  then show ?case by simp
next
  case (2 sep l)
  then show ?case by simp
next
  case (3 sep l m ls)
  have "join sep (m # ls) \<noteq> []" by (rule join_eq_Nil) (use 3(3) in auto)
  then show ?case using 3 by simp
qed

lemma trim_id:
  assumes "s \<noteq> []" "\<not> is_space (hd s)" "\<not> is_space (last s)"
  shows "trim s = s"
proof -
  have 1: "dropWhile is_space s = s" using assms(1,2) by (cases s) auto
  have "rev s \<noteq> []" "\<not> is_space (hd (rev s))" using assms(1,3) by (auto simp: hd_rev)
  then have 2: "dropWhile is_space (rev s) = rev s" by (cases "rev s") auto
  show ?thesis unfolding trim_def 1 2 by simp
qed

lemma renderable_lines:
  assumes h: "hd ls = ''graph TD''"
    and n: "n \<in> set (tl ls)" "nl \<notin> set n" "trim n \<noteq> []"
      "\<not> startsWith (toLowerCase (trim n)) ''graph ''" "rx_test has_node_rx (trim n)"
    and e: "e \<in> set (tl ls)" "nl \<notin> set e" "trim e \<noteq> []"
      "\<not> startsWith (toLowerCase (trim e)) ''graph ''" "rx_test has_edge_rx (trim e)"
    and l: "last ls \<noteq> []" "\<not> is_space (last (last ls))"
  shows "hasRenderableGraphDiagram (Some (join [nl] ls))"
proof -
  let ?d = "join [nl] ls"
  have "tl ls \<noteq> []" using n(1) by auto
  then obtain r rs where ls: "ls = ''graph TD'' # r # rs"
    using h by (cases ls; cases "tl ls") auto
  have d: "?d = ''graph TD'' @ [nl] @ join [nl] (r # rs)" unfolding ls by simp
  have dne: "?d \<noteq> []" unfolding d by simp
  have "last ?d = last (last ls)"
    by (rule last_join) (use ls l(1) in auto)
  then have "\<not> is_space (last ?d)" using l(2) by simp
  moreover have "\<not> is_space (hd ?d)" unfolding d by (simp add: is_space_def)
  ultimately have t: "trim ?d = ?d" using trim_id dne by blast
  have "toLowerCase ''graph'' = ''graph''" by code_simp
  moreover have "is_space CHR '' ''" by (simp add: is_space_def)
  moreover have "?d = ''graph'' @ CHR '' '' # (''TD'' @ [nl] @ join [nl] (r # rs))" unfolding d by simp
  ultimately have "graph_keyword ?d" unfolding graph_keyword_def by blast
  then have k: "rx_test graph_keyword_rx ?d" by (simp add: graph_keyword_rx_iff)
  have "n \<in> set (split_on nl ?d)" by (rule line_in_split_join) (use n ls in auto)
  then have n': "trim n \<in> set (statementLines ?d)"
    unfolding statementLines_def using n(3,4) by auto
  have "e \<in> set (split_on nl ?d)" by (rule line_in_split_join) (use e ls in auto)
  then have e': "trim e \<in> set (statementLines ?d)"
    unfolding statementLines_def using e(3,4) by auto
  have ln: "length (statementLines ?d) \<noteq> 0" using n' by auto
  have hn: "list_ex (rx_test has_node_rx) (statementLines ?d)"
    unfolding list_ex_iff using n' n(5) by blast
  have he: "list_ex (rx_test has_edge_rx) (statementLines ?d)"
    unfolding list_ex_iff using e' e(5) by blast
  show ?thesis
    unfolding hasRenderableGraphDiagram_def option.case Let_def t
    using dne k ln hn he by simp
qed

lemma user_node_line:
  \<open>nl \<notin> set ''  User["User initiates action"]''\<close>
  \<open>trim ''  User["User initiates action"]'' \<noteq> []\<close>
  \<open>\<not> startsWith (toLowerCase (trim ''  User["User initiates action"]'')) ''graph ''\<close>
  \<open>rx_test has_node_rx (trim ''  User["User initiates action"]'')\<close>
  by code_simp+

lemma logic_edge_line:
  \<open>nl \<notin> set ''  Logic --> Data''\<close>
  \<open>trim ''  Logic --> Data'' \<noteq> []\<close>
  \<open>\<not> startsWith (toLowerCase (trim ''  Logic --> Data'')) ''graph ''\<close>
  \<open>rx_test has_edge_rx (trim ''  Logic --> Data'')\<close>
  by code_simp+

lemma start_node_line:
  \<open>nl \<notin> set ''  Start["User Entry"]''\<close>
  \<open>trim ''  Start["User Entry"]'' \<noteq> []\<close>
  \<open>\<not> startsWith (toLowerCase (trim ''  Start["User Entry"]'')) ''graph ''\<close>
  \<open>rx_test has_node_rx (trim ''  Start["User Entry"]'')\<close>
  by code_simp+

lemma start_edge_line:
  \<open>nl \<notin> set ''  Start --> Screen0''\<close>
  \<open>trim ''  Start --> Screen0'' \<noteq> []\<close>
  \<open>\<not> startsWith (toLowerCase (trim ''  Start --> Screen0'')) ''graph ''\<close>
  \<open>rx_test has_edge_rx (trim ''  Start --> Screen0'')\<close>
  by code_simp+

lemma show_nat_0: "show_nat 0 = ''0''"
  by (simp add: show_nat.simps)

lemma business_flow_renderable: "hasRenderableGraphDiagram (Some (buildBusinessFlowFallback result))"
  unfolding buildBusinessFlowFallback_def Let_def
proof (rule renderable_lines[where n = \<open>''  User["User initiates action"]''\<close> and e = "''  Logic --> Data''"],
    goal_cases)
  case 1 show ?case by simp
next
  case 2 show ?case by simp
next
  case 7 show ?case by simp
next
  case 12 show ?case by simp
next
  case 13 show ?case by (simp add: is_space_def)
qed (rule user_node_line logic_edge_line)+

lemma screen_transition_renderable:
  "hasRenderableGraphDiagram (Some (buildScreenTransitionFallback screens))"
proof -
  define list where "list = (if length screens \<noteq> 0 then screens
             else [\<lparr>screenName = ''Main Screen'', ScreenDescription.description = [],
                    uiElements = [], events = [], validations = []\<rparr>])"
  define baseNodes where "baseNodes = map (\<lambda>(index, screen).
                   (''Screen'' @ show_nat index,
                    escapeLabelService
                      (if screenName screen \<noteq> [] then screenName screen
                       else ''Screen '' @ show_nat (index + 1))))
              (enumerate 0 list)"
  have "list \<noteq> []" unfolding list_def by auto
  then obtain x xs where list: "list = x # xs" by (cases list) auto
  have bn: "length baseNodes \<noteq> 0" "fst (baseNodes ! 0) = ''Screen0''"
    unfolding baseNodes_def list by (simp_all add: show_nat_0)
  show ?thesis
    unfolding buildScreenTransitionFallback_def Let_def list_def[symmetric] baseNodes_def[symmetric]
      if_P[OF bn(1)] bn(2)
  proof (rule renderable_lines[where n = \<open>''  Start["User Entry"]''\<close> and e = "''  Start --> Screen0''"],
      goal_cases)
    case 1 show ?case by simp
  next
    case 2 show ?case by simp
  next
    case 7 show ?case by simp
  next
    case 12 show ?case by simp
  next
    case 13 show ?case by (simp add: is_space_def)
  qed (rule start_node_line start_edge_line)+
qed

section \<open>Screen names of a diagram and the map of existing descriptions\<close>

lemma existingMap_snoc:
  "existingMap (xs @ [x]) = (existingMap xs)(screenKey (screenName x) \<mapsto> x)"
  by (simp add: existingMap_def)

lemma existingMap_last_match: "existingMap screens k = last_match screens k"
proof (induction screens rule: rev_induct)
  case Nil
  then show ?case by (simp add: existingMap_def last_match_def)
next
  case (snoc x xs)
  show ?case
  proof (cases "screenKey (screenName x) = k")
    case True
    then show ?thesis
      unfolding existingMap_snoc last_match_def by simp
  next
    case False
    then show ?thesis
      unfolding existingMap_snoc using snoc.IH
      by (simp add: last_match_def)
  qed
qed

lemma extractStep_invariant:
  assumes "distinct (map toLowerCase names)"
    "extractStep (names, set (map toLowerCase names)) mc = (names', seen')"
  shows "seen' = set (map toLowerCase names') \<and> distinct (map toLowerCase names')"
proof -
  obtain m c where mc: "mc = (m, c)" by (cases mc)
  define label where "label = (if grp c 2 \<noteq> [] then grp c 2
                         else if grp c 3 \<noteq> [] then grp c 3 else grp c 4)"
  have step: "extractStep (names, set (map toLowerCase names)) mc =
     (if label = [] then (names, set (map toLowerCase names))
      else if trim label = [] \<or> toLowerCase (trim label) \<in> set (map toLowerCase names)
           then (names, set (map toLowerCase names))
           else (names @ [trim label], insert (toLowerCase (trim label)) (set (map toLowerCase names))))"
    unfolding mc extractStep_def label_def Let_def by simp
  show ?thesis
  proof (cases "label = [] \<or> trim label = [] \<or> toLowerCase (trim label) \<in> set (map toLowerCase names)")
    case True
    then have "names' = names" "seen' = set (map toLowerCase names)"
      using assms(2) unfolding step by (auto split: if_splits)
    then show ?thesis using assms(1) by simp
  next
    case False
    then have "names' = names @ [trim label]"
      "seen' = insert (toLowerCase (trim label)) (set (map toLowerCase names))"
      using assms(2) unfolding step by (auto split: if_splits)
    then show ?thesis using assms(1) False by auto
  qed
qed

lemma foldl_extractStep_invariant:
  assumes "distinct (map toLowerCase names)"
    "foldl extractStep (names, set (map toLowerCase names)) mcs = (names', seen')"
  shows "seen' = set (map toLowerCase names') \<and> distinct (map toLowerCase names')"
  using assms
proof (induction mcs arbitrary: names)
  case Nil
  then show ?case by auto
next
  case (Cons mc mcs)
  obtain n1 s1 where s: "extractStep (names, set (map toLowerCase names)) mc = (n1, s1)"
    by (cases "extractStep (names, set (map toLowerCase names)) mc")
  have i: "s1 = set (map toLowerCase n1)" "distinct (map toLowerCase n1)"
    using extractStep_invariant[OF Cons.prems(1) s] by simp_all
  show ?case using Cons.IH[OF i(2)] Cons.prems(2) s i(1) by simp
qed

lemma extract_distinct: "distinct (map toLowerCase (extractScreenNamesFromDiagram d))"
proof (cases d)
  case None
  then show ?thesis by (simp add: extractScreenNamesFromDiagram_def)
next
  case (Some t)
  obtain names seen where f: "foldl extractStep ([], {}) (rx_matches screen_node_rx t) = (names, seen)"
    by (cases "foldl extractStep ([], {}) (rx_matches screen_node_rx t)")
  have "distinct (map toLowerCase names)"
    using foldl_extractStep_invariant[of "[]" "rx_matches screen_node_rx t" names seen] f by simp
  then show ?thesis using Some f by (simp add: extractScreenNamesFromDiagram_def)
qed

section \<open>The first match of the direction pattern\<close>

lemma ms_liti_list:
  "ms (liti k) (p, s, c) =
     (if length k \<le> length s \<and> toLowerCase (take (length k) s) = toLowerCase k
      then [(after p (take (length k) s), drop (length k) s, c)] else [])"
proof (induction k arbitrary: p s)
  case Nil
  then show ?case by (simp add: toLowerCase_def)
next
  case (Cons a k)
  show ?case
  proof (cases s)
    case Nil
    then show ?thesis by simp
  next
    case (Cons x xs)
    show ?thesis
      unfolding Cons by (simp add: Cons.IH toLowerCase_def ci_def)
  qed
qed

lemma rev_upt_Suc: "rev [0..<Suc n] = map Suc (rev [0..<n]) @ [0]"
proof -
  have "[0..<Suc n] = 0 # [Suc 0..<Suc n]" by (rule upt_conv_Cons) simp
  also have "[Suc 0..<Suc n] = map Suc [0..<n]" by (rule map_Suc_upt[symmetric])
  finally have e: "[0..<Suc n] = 0 # map Suc [0..<n]" .
  show ?thesis unfolding e by (simp add: rev_map)
qed

lemma rx_search_anchored:
  "rx_search (Seq (Bol False) r) None s =
     (case ms r (None, s, []) of
        [] \<Rightarrow> None
      | (p', s', c) # _ \<Rightarrow> Some ([], take (length s - length s') s, c, p', s'))"
proof (cases "ms r (None, s, [])")
  case Nil
  then have "\<not> rx_test (Seq (Bol False) r) s"
    unfolding rx_test_anchored by simp
  then have "rx_search (Seq (Bol False) r) None s = None"
    unfolding rx_test_def by blast
  then show ?thesis unfolding Nil by simp
next
  case (Cons st sts)
  obtain p' s' c where st: "st = (p', s', c)" by (cases st)
  have m: "ms (Seq (Bol False) r) (None, s, []) = (p', s', c) # sts"
    unfolding ms_Bol_False_Seq using Cons st by simp
  show ?thesis
  proof (cases s)
    case Nil
    then show ?thesis using m Cons st by (simp del: ms.simps)
  next
    case (Cons x xs)
    then show ?thesis using m \<open>ms r (None, s, []) = st # sts\<close> st by (simp del: ms.simps)
  qed
qed

lemma ms_Star_greedy:
  "ms (Star P) (p, s, c) =
     (after p (takeWhile P s), dropWhile P s, c) #
     map (\<lambda>k. (after p (take k s), drop k s, c)) (rev [0..<length (takeWhile P s)])"
proof (induction s arbitrary: p)
  case Nil
  then show ?case by simp
next
  case (Cons x xs)
  show ?case
  proof (cases "P x")
    case True
    then show ?thesis
      by (simp add: Cons.IH rev_upt_Suc comp_def del: upt_Suc)
  next
    case False
    then show ?thesis by simp
  qed
qed

lemma concat_map_head:
  "(\<forall>st\<in>set sts. f st = []) \<Longrightarrow> concat (map f (st0 # sts)) = f st0"
  by (induction sts) auto

lemma ms_Plus_blocked: "\<not> Q x \<Longrightarrow> ms (Plus Q) (p, x # xs, c) = []"
  by (simp add: Plus_def)

lemma ms_Grp_Plus_blocked: "\<not> Q x \<Longrightarrow> ms (Grp n (Plus Q)) (p, x # xs, c) = []"
  by (simp add: ms_Plus_blocked)

lemma alpha_not_space: "is_alpha x \<Longrightarrow> \<not> is_space x"
  by (auto simp: is_space_def is_alpha_def is_upper_def is_lower_def)

lemma ms_Star_then:
  assumes "\<And>x xs p c. P x \<Longrightarrow> ms r (p, x # xs, c) = []"
  shows "ms (Seq (Star P) r) (p, s, c) = ms r (after p (takeWhile P s), dropWhile P s, c)"
proof -
  have "ms r st = []"
    if "st \<in> set (map (\<lambda>k. (after p (take k s), drop k s, c)) (rev [0..<length (takeWhile P s)]))" for st
  proof -
    from that obtain k where k: "k < length (takeWhile P s)" "st = (after p (take k s), drop k s, c)"
      by auto
    have ks: "k < length s" using k(1) by (meson length_takeWhile_le less_le_trans)
    have "P (s ! k)" using k(1) by (metis nth_mem set_takeWhileD takeWhile_nth)
    moreover have "drop k s = s ! k # drop (Suc k) s" using ks by (simp add: Cons_nth_drop_Suc)
    ultimately show ?thesis using assms k(2) by simp
  qed
  then show ?thesis
    unfolding ms.simps(4) ms_Star_greedy by (rule concat_map_head[OF ballI])
qed

lemma ms_Plus_then:
  assumes "\<And>x xs p c. P x \<Longrightarrow> ms r (p, x # xs, c) = []" "P x"
  shows "ms (Seq (Plus P) r) (p, x # xs, c) = ms r (after (Some x) (takeWhile P xs), dropWhile P xs, c)"
proof -
  have "ms (Seq (Plus P) r) (p, x # xs, c) = ms (Seq (Star P) r) (Some x, xs, c)"
    using assms(2) by (simp add: Plus_def)
  then show ?thesis using ms_Star_then[OF assms(1)] by simp
qed

lemma ms_Grp_Plus_hd:
  assumes "Q y"
  shows "\<exists>p' rest. ms (Grp n (Plus Q)) (p, y # ys, c)
           = (p', dropWhile Q (y # ys), (n, takeWhile Q (y # ys)) # c) # rest"
proof -
  have "ms (Plus Q) (p, y # ys, c) = ms (Star Q) (Some y, ys, c)"
    using assms by (simp add: Plus_def)
  then obtain rest where "ms (Plus Q) (p, y # ys, c) = (after (Some y) (takeWhile Q ys), dropWhile Q ys, c) # rest"
    unfolding ms_Star_greedy by blast
  moreover have "take (length (y # ys) - length (dropWhile Q ys)) (y # ys) = y # takeWhile Q ys"
  proof -
    have "length ys = length (takeWhile Q ys) + length (dropWhile Q ys)"
      by (metis length_append takeWhile_dropWhile_id)
    then have "length (y # ys) - length (dropWhile Q ys) = Suc (length (takeWhile Q ys))" by simp
    then show ?thesis by (simp add: takeWhile_eq_take[symmetric])
  qed
  ultimately show ?thesis using assms by simp
qed

lemma direction_capture:
  assumes "graph_keyword s"
  shows "rx_match direction_rx s = None \<and> takeWhile is_alpha (dropWhile is_space (drop 5 s)) = []
       \<or> (\<exists>m. rx_match direction_rx s
              = Some (m, [(1, takeWhile is_alpha (dropWhile is_space (drop 5 s)))]))"
proof -
  from assms obtain g x xs where s: "s = g @ x # xs" "toLowerCase g = ''graph''" "is_space x"
    unfolding graph_keyword_def by blast
  have "length (toLowerCase g) = 5" using s(2) by simp
  then have lg: "length g = 5" by (simp add: toLowerCase_def)
  have lgr: "toLowerCase ''graph'' = ''graph''" by code_simp
  let ?r = "Grp 1 (Plus is_alpha)"
  let ?w = "dropWhile is_space (drop 5 s)"
  have w: "?w = dropWhile is_space xs" using s(1,3) lg by simp
  have blocked: "\<And>x xs p c. is_space x \<Longrightarrow> ms ?r (p, x # xs, c) = []"
    using alpha_not_space ms_Grp_Plus_blocked by blast
  have 1: "ms (liti ''graph'') (None, s, []) = [(after None g, x # xs, [])]"
    unfolding ms_liti_list using s lg lgr by simp
  have 2: "ms (Seq (Plus is_space) ?r) (after None g, x # xs, [])
         = ms ?r (after (Some x) (takeWhile is_space xs), ?w, [])"
    unfolding w by (rule ms_Plus_then[where P = is_space and r = "?r", OF blocked s(3)])
  have 3: "ms (Seq (liti ''graph'') (Seq (Plus is_space) ?r)) (None, s, [])
         = ms ?r (after (Some x) (takeWhile is_space xs), ?w, [])"
    unfolding ms.simps(4)[of "liti ''graph''"] 1 using 2 by simp
  have anchored: "rx_search direction_rx None s =
      (case ms (Seq (liti ''graph'') (Seq (Plus is_space) ?r)) (None, s, []) of
         [] \<Rightarrow> None
       | (p', s', c) # _ \<Rightarrow> Some ([], take (length s - length s') s, c, p', s'))"
    unfolding direction_rx_def seqs.simps by (rule rx_search_anchored)
  show ?thesis
  proof (cases ?w)
    case Nil
    have "ms ?r (after (Some x) (takeWhile is_space xs), ?w, []) = []"
      unfolding Nil by (simp add: Plus_def)
    then have "rx_search direction_rx None s = None" unfolding anchored 3 by simp
    then show ?thesis unfolding Nil by (simp add: rx_match_def)
  next
    case (Cons y ys)
    show ?thesis
    proof (cases "is_alpha y")
      case False
      then have "ms ?r (after (Some x) (takeWhile is_space xs), ?w, []) = []"
        unfolding Cons by (rule ms_Grp_Plus_blocked)
      then have "rx_search direction_rx None s = None" unfolding anchored 3 by simp
      then show ?thesis unfolding Cons using False by (simp add: rx_match_def)
    next
      case True
      obtain p' rest where "ms ?r (after (Some x) (takeWhile is_space xs), y # ys, [])
           = (p', dropWhile is_alpha (y # ys), [(1, takeWhile is_alpha (y # ys))]) # rest"
        using ms_Grp_Plus_hd[where Q = is_alpha and y = y and ys = ys and n = 1 and c = "[]"
            and p = "after (Some x) (takeWhile is_space xs)", OF True] by blast
      then have "rx_search direction_rx None s =
          Some ([], take (length s - length (dropWhile is_alpha (y # ys))) s,
                [(1, takeWhile is_alpha (y # ys))], p', dropWhile is_alpha (y # ys))"
        unfolding anchored 3 Cons by simp
      then show ?thesis unfolding Cons by (simp add: rx_match_def)
    qed
  qed
qed

lemma header_rx_iff: "rx_test header_rx t \<longleftrightarrow> graph_keyword t"
proof
  assume "rx_test header_rx t"
  then obtain st where "st \<in> set (ms (Seq (liti ''graph'') (Plus is_space)) (None, t, []))"
    unfolding header_rx_def seqs.simps rx_test_anchored by blast
  then obtain st1 where 1: "st1 \<in> set (ms (liti ''graph'') (None, t, []))" and 2: "st \<in> set (ms (Plus is_space) st1)"
    unfolding ms_Seq_iff by blast
  from 1 obtain g s1 where g: "t = g @ s1" "toLowerCase g = toLowerCase ''graph''" "st1 = (after None g, s1, [])"
    unfolding ms_liti_iff by blast
  from 2 obtain u s2 where u: "s1 = u @ s2" "u \<noteq> []" "\<forall>x\<in>set u. is_space x"
    unfolding g(3) ms_Plus_iff by blast
  obtain sp u' where "u = sp # u'" using u(2) by (cases u) auto
  then have t: "t = g @ sp # (u' @ s2)" "is_space sp" using g(1) u(1,3) by auto
  have lg: "toLowerCase ''graph'' = ''graph''" by code_simp
  show "graph_keyword t" unfolding graph_keyword_def
    by (intro exI[of _ g] exI[of _ sp] exI[of _ "u' @ s2"]) (use t g(2) lg in simp)
next
  assume "graph_keyword t"
  then obtain g sp rest where g: "t = g @ sp # rest" "toLowerCase g = ''graph''" "is_space sp"
    unfolding graph_keyword_def by blast
  have lg: "toLowerCase ''graph'' = ''graph''" by code_simp
  have "length (toLowerCase g) = 5" using g(2) by simp
  then have len: "length g = length ''graph''" by (simp add: toLowerCase_def)
  have 1: "(after None g, sp # rest, []) \<in> set (ms (liti ''graph'') (None, t, []))"
    unfolding ms_liti_iff using g len lg by (intro exI[of _ g] exI[of _ "sp # rest"]) simp
  have 2: "(Some sp, rest, []) \<in> set (ms (Plus is_space) (after None g, sp # rest, []))"
    unfolding ms_Plus_iff using g(3) by (intro exI[of _ "[sp]"] exI[of _ rest]) simp
  have "(Some sp, rest, []) \<in> set (ms (Seq (liti ''graph'') (Plus is_space)) (None, t, []))"
    apply (subst ms_Seq_iff)
    apply (rule bexI[OF _ 1])
    apply (rule 2)
    done
  then show "rx_test header_rx t"
    unfolding header_rx_def seqs.simps rx_test_anchored by blast
qed

lemma header_of_direction:
  assumes "graph_keyword s"
  shows "header_of s =
      (if toUpperCase (direction_word s) = ''LR'' then ''graph LR'' else ''graph TD'')"
  using direction_capture[OF assms]
  by (auto simp: header_of_def grp_def toUpperCase_def direction_word_def)

section \<open>The sequence normalizer line by line\<close>

lemma take_length_dropWhile: "take (length s - length (dropWhile P s)) s = takeWhile P s"
proof -
  have "length s = length (takeWhile P s) + length (dropWhile P s)"
    by (metis length_append takeWhile_dropWhile_id)
  then have "length s - length (dropWhile P s) = length (takeWhile P s)" by simp
  then show ?thesis by (simp add: takeWhile_eq_take[symmetric])
qed

lemma ms_Grp_Star_then:
  assumes "\<And>x xs p c. P x \<Longrightarrow> ms r (p, x # xs, c) = []"
  shows "ms (Seq (Grp n (Star P)) r) (p, s, c)
       = ms r (after p (takeWhile P s), dropWhile P s, (n, takeWhile P s) # c)"
proof -
  let ?g = "\<lambda>(p', s', c'). (p', s', (n, take (length s - length s') s) # c')"
  let ?tl = "map (\<lambda>k. (after p (take k s), drop k s, c)) (rev [0..<length (takeWhile P s)])"
  have e: "ms (Grp n (Star P)) (p, s, c)
      = (after p (takeWhile P s), dropWhile P s, (n, takeWhile P s) # c) # map ?g ?tl"
    unfolding ms.simps(10) ms_Star_greedy by (simp add: take_length_dropWhile)
  have "ms r st = []" if "st \<in> set (map ?g ?tl)" for st
  proof -
    from that obtain k where k: "k < length (takeWhile P s)"
        "st = (after p (take k s), drop k s, (n, take (length s - length (drop k s)) s) # c)"
      by auto
    have ks: "k < length s" using k(1) by (meson length_takeWhile_le less_le_trans)
    have "P (s ! k)" using k(1) by (metis nth_mem set_takeWhileD takeWhile_nth)
    moreover have "drop k s = s ! k # drop (Suc k) s" using ks by (simp add: Cons_nth_drop_Suc)
    ultimately show ?thesis using assms k(2) by simp
  qed
  then show ?thesis
    unfolding ms.simps(4) e by (rule concat_map_head[OF ballI])
qed

lemma lt_is_space: "\<not> dot x \<Longrightarrow> is_space x"
  by (auto simp: dot_def is_lt_def is_space_def)

lemma ms_Plus_Grp_iff:
  "st \<in> set (ms (Seq (Plus P) (Grp n (Plus Q))) (p, r, c)) \<longleftrightarrow>
     (\<exists>u t s'. r = u @ t @ s' \<and> u \<noteq> [] \<and> (\<forall>x\<in>set u. P x) \<and> t \<noteq> [] \<and> (\<forall>x\<in>set t. Q x)
        \<and> st = (after (after p u) t, s', (n, t) # c))"
proof
  assume "st \<in> set (ms (Seq (Plus P) (Grp n (Plus Q))) (p, r, c))"
  then obtain st1 where 1: "st1 \<in> set (ms (Plus P) (p, r, c))" and 2: "st \<in> set (ms (Grp n (Plus Q)) st1)"
    by (subst (asm) ms_Seq_iff) blast
  from 1 obtain u s1 where u: "r = u @ s1" "u \<noteq> []" "\<forall>x\<in>set u. P x" "st1 = (after p u, s1, c)"
    unfolding ms_Plus_iff by blast
  from 2 obtain p' s' c' where g: "(p', s', c') \<in> set (ms (Plus Q) (after p u, s1, c))"
      "st = (p', s', (n, take (length s1 - length s') s1) # c')"
    unfolding u(4) ms_Grp_iff by blast
  from g(1) obtain t s2 where t: "s1 = t @ s2" "t \<noteq> []" "\<forall>x\<in>set t. Q x"
      "(p', s', c') = (after (after p u) t, s2, c)"
    unfolding ms_Plus_iff by blast
  have "st = (after (after p u) t, s2, (n, t) # c)" using g(2) t(1,4) by simp
  then show "\<exists>u t s'. r = u @ t @ s' \<and> u \<noteq> [] \<and> (\<forall>x\<in>set u. P x) \<and> t \<noteq> [] \<and> (\<forall>x\<in>set t. Q x)
        \<and> st = (after (after p u) t, s', (n, t) # c)"
    using u(1,2,3) t(1,2,3) by (intro exI[of _ u] exI[of _ t] exI[of _ s2]) simp
next
  assume "\<exists>u t s'. r = u @ t @ s' \<and> u \<noteq> [] \<and> (\<forall>x\<in>set u. P x) \<and> t \<noteq> [] \<and> (\<forall>x\<in>set t. Q x)
        \<and> st = (after (after p u) t, s', (n, t) # c)"
  then obtain u t s' where a: "r = u @ t @ s'" "u \<noteq> []" "\<forall>x\<in>set u. P x" "t \<noteq> []" "\<forall>x\<in>set t. Q x"
      "st = (after (after p u) t, s', (n, t) # c)"
    by blast
  have 1: "(after p u, t @ s', c) \<in> set (ms (Plus P) (p, r, c))"
    unfolding ms_Plus_iff using a(1,2,3) by (intro exI[of _ u] exI[of _ "t @ s'"]) simp
  have 2: "(after (after p u) t, s', c) \<in> set (ms (Plus Q) (after p u, t @ s', c))"
    unfolding ms_Plus_iff using a(4,5) by (intro exI[of _ t] exI[of _ s']) simp
  have 3: "st \<in> set (ms (Grp n (Plus Q)) (after p u, t @ s', c))"
    unfolding ms_Grp_iff using 2 a(6)
    by (intro exI[of _ "after (after p u) t"] exI[of _ s'] exI[of _ c]) simp
  show "st \<in> set (ms (Seq (Plus P) (Grp n (Plus Q))) (p, r, c))"
    apply (subst ms_Seq_iff)
    apply (rule bexI[OF _ 1])
    apply (rule 3)
    done
qed

lemma name_exists_iff:
  "(\<exists>st. st \<in> set (ms (Seq (Plus is_space) (Grp n (Plus dot))) (p, r, c))) \<longleftrightarrow>
     r \<noteq> [] \<and> is_space (hd r) \<and> (\<exists>x\<in>set (tl r). dot x)"
proof
  assume "\<exists>st. st \<in> set (ms (Seq (Plus is_space) (Grp n (Plus dot))) (p, r, c))"
  then obtain u t s' where a: "r = u @ t @ s'" "u \<noteq> []" "\<forall>x\<in>set u. is_space x" "t \<noteq> []" "\<forall>x\<in>set t. dot x"
    unfolding ms_Plus_Grp_iff by blast
  obtain w u' where u: "u = w # u'" using a(2) by (cases u) auto
  obtain y t' where t: "t = y # t'" using a(4) by (cases t) auto
  have "r \<noteq> []" "is_space (hd r)" using a(1,3) u by auto
  moreover have "y \<in> set (tl r)" "dot y" using a(1,5) u t by auto
  ultimately show "r \<noteq> [] \<and> is_space (hd r) \<and> (\<exists>x\<in>set (tl r). dot x)" by blast
next
  assume b: "r \<noteq> [] \<and> is_space (hd r) \<and> (\<exists>x\<in>set (tl r). dot x)"
  then obtain w rest where r: "r = w # rest" "is_space w" by (cases r) auto
  from b r obtain x where x: "x \<in> set rest" "dot x" by auto
  let ?pre = "takeWhile (\<lambda>y. \<not> dot y) rest"
  let ?post = "dropWhile (\<lambda>y. \<not> dot y) rest"
  have ne: "?post \<noteq> []" using x by (auto simp: dropWhile_eq_Nil_conv)
  then obtain y post' where post: "?post = y # post'" by (cases ?post) auto
  have dy: "dot y" using hd_dropWhile[OF ne] post by simp
  have sp: "\<forall>z\<in>set (w # ?pre). is_space z"
    using r(2) lt_is_space by (auto dest: set_takeWhileD)
  have split: "r = (w # ?pre) @ [y] @ post'"
    using r(1) post by (metis append_Cons append_Nil takeWhile_dropWhile_id)
  have "(after (after p (w # ?pre)) [y], post', (n, [y]) # c)
      \<in> set (ms (Seq (Plus is_space) (Grp n (Plus dot))) (p, r, c))"
    unfolding ms_Plus_Grp_iff using split sp dy
    by (intro exI[of _ "w # ?pre"] exI[of _ "[y]"] exI[of _ post']) simp
  then show "\<exists>st. st \<in> set (ms (Seq (Plus is_space) (Grp n (Plus dot))) (p, r, c))" by blast
qed

lemma name_first:
  assumes "is_space w" "dropWhile is_space rest \<noteq> []"
  shows "\<exists>p' sts. ms (Seq (Plus is_space) (Grp n (Plus dot))) (p, w # rest, c)
      = (p', dropWhile dot (dropWhile is_space rest), (n, takeWhile dot (dropWhile is_space rest)) # c) # sts"
proof -
  obtain y ys where t: "dropWhile is_space rest = y # ys" using assms(2) by (cases "dropWhile is_space rest") auto
  have "\<not> is_space y" using hd_dropWhile[OF assms(2)] t by simp
  then have dy: "dot y" using lt_is_space by blast
  obtain p' sts1 where g: "ms (Grp n (Plus dot)) (after (Some w) (takeWhile is_space rest), y # ys, c)
           = (p', dropWhile dot (y # ys), (n, takeWhile dot (y # ys)) # c) # sts1"
    using ms_Grp_Plus_hd[where Q = dot and y = y and ys = ys and n = n and c = c
        and p = "after (Some w) (takeWhile is_space rest)", OF dy] by blast
  have "ms (Seq (Plus is_space) (Grp n (Plus dot))) (p, w # rest, c)
      = concat (map (ms (Grp n (Plus dot))) (ms (Star is_space) (Some w, rest, c)))"
    using assms(1) by (simp add: Plus_def)
  also have "\<dots> = ms (Grp n (Plus dot)) (after (Some w) (takeWhile is_space rest), y # ys, c)
      @ concat (map (ms (Grp n (Plus dot)))
          (map (\<lambda>k. (after (Some w) (take k rest), drop k rest, c)) (rev [0..<length (takeWhile is_space rest)])))"
    unfolding ms_Star_greedy t by simp
  finally show ?thesis unfolding g t by auto
qed

lemma normalized_name_spaces: "\<forall>x\<in>set t. is_space x \<Longrightarrow> normalized_name t = []"
proof -
  assume a: "\<forall>x\<in>set t. is_space x"
  have "trim (filter (\<lambda>c. c \<noteq> dq \<and> c \<noteq> sq) t) = []"
    unfolding trim_eq_Nil_iff using a by simp
  then show ?thesis by (simp add: normalized_name_def toLowerCase_def)
qed

lemma rx_match_anchored:
  "rx_match (Seq (Bol False) r) s =
     (case ms r (None, s, []) of
        [] \<Rightarrow> None
      | (p', s', c) # _ \<Rightarrow> Some (take (length s - length s') s, c))"
  unfolding rx_match_def rx_search_anchored
  by (cases "ms r (None, s, [])") (auto split: prod.splits)

lemma directive_rx_match:
  assumes kw: "kw = k # ks" "is_lower k" "toLowerCase kw = kw"
  shows "case directive kw q of
            None \<Rightarrow> rx_match (Seq (Bol False) (Seq (Grp 1 (Star is_space)) (Seq (liti kw)
                       (Seq (Plus is_space) (Grp 2 (Plus dot)))))) q = None
          | Some nm \<Rightarrow> (\<exists>m c. rx_match (Seq (Bol False) (Seq (Grp 1 (Star is_space)) (Seq (liti kw)
                       (Seq (Plus is_space) (Grp 2 (Plus dot)))))) q = Some (m, c)
                \<and> normalized_name (grp c 2) = normalized_name nm)"
proof -
  let ?T = "Seq (Plus is_space) (Grp 2 (Plus dot))"
  let ?ws = "takeWhile is_space q"
  let ?body = "dropWhile is_space q"
  let ?r = "drop (length kw) ?body"
  let ?c1 = "[(1, ?ws)]"
  let ?p1 = "after (after None ?ws) (take (length kw) ?body)"
  let ?M = "ms (Seq (Grp 1 (Star is_space)) (Seq (liti kw) ?T)) (None, q, [])"
  have lk: "lower_char k = k" using kw(1,3) by (simp add: toLowerCase_def)
  have blocked: "ms (Seq (liti kw) ?T) (p, x # xs, c) = []" if "is_space x" for x xs p c
  proof -
    have "\<not> ci k x"
    proof
      assume "ci k x"
      then have "lower_char x = k" using lk by (simp add: ci_def)
      then have "is_lower (lower_char x)" using kw(2) by simp
      then show False using that lower_char_not_space by blast
    qed
    then show ?thesis unfolding kw(1) by simp
  qed
  have len: "toLowerCase (take (length kw) ?body) = kw \<Longrightarrow> length kw \<le> length ?body"
  proof -
    assume "toLowerCase (take (length kw) ?body) = kw"
    then have "length (toLowerCase (take (length kw) ?body)) = length kw" by simp
    then have "length (take (length kw) ?body) = length kw" by (simp add: toLowerCase_def)
    then show ?thesis by simp
  qed
  have 1: "?M = ms (Seq (liti kw) ?T) (after None ?ws, ?body, ?c1)"
    by (rule ms_Grp_Star_then) (rule blocked)
  have s2: "ms (Seq (liti kw) ?T) (after None ?ws, ?body, ?c1)
      = concat (map (ms ?T) (ms (liti kw) (after None ?ws, ?body, ?c1)))"
    by (rule ms.simps(4))
  have 2: "?M = (if toLowerCase (take (length kw) ?body) = kw then ms ?T (?p1, ?r, ?c1) else [])"
  proof (cases "toLowerCase (take (length kw) ?body) = kw")
    case True
    have l: "length kw \<le> length ?body" using True by (rule len)
    have "ms (liti kw) (after None ?ws, ?body, ?c1) = [(?p1, ?r, ?c1)]"
      unfolding ms_liti_list using True l kw(3) by simp
    then show ?thesis unfolding 1 s2 using True by (simp del: ms.simps)
  next
    case False
    have "ms (liti kw) (after None ?ws, ?body, ?c1) = []"
      unfolding ms_liti_list using False kw(3) by simp
    then show ?thesis unfolding 1 s2 using False by (simp del: ms.simps)
  qed
  note m = rx_match_anchored[of "Seq (Grp 1 (Star is_space)) (Seq (liti kw) ?T)" q]
  show ?thesis
  proof (cases "toLowerCase (take (length kw) ?body) = kw")
    case False
    then have "?M = []" using 2 by (simp del: ms.simps)
    moreover have "directive kw q = None" using False by (simp add: directive_def Let_def)
    ultimately show ?thesis using m by (simp del: ms.simps)
  next
    case True
    then have M: "?M = ms ?T (?p1, ?r, ?c1)" using 2 by (simp del: ms.simps)
    show ?thesis
    proof (cases "?r \<noteq> [] \<and> is_space (hd ?r) \<and> (\<exists>x\<in>set (tl ?r). dot x)")
      case False
      then have "\<not> (\<exists>st. st \<in> set (ms ?T (?p1, ?r, ?c1)))"
        unfolding name_exists_iff by blast
      then have "ms ?T (?p1, ?r, ?c1) = []" by (cases "ms ?T (?p1, ?r, ?c1)") (auto simp del: ms.simps)
      then have "?M = []" using M by (simp del: ms.simps)
      moreover have "directive kw q = None" using False by (auto simp add: directive_def Let_def)
      ultimately show ?thesis using m by (simp del: ms.simps)
    next
      case c: True
      then obtain w rest where r: "?r = w # rest" "is_space w" by (cases ?r) auto
      have cond: "toLowerCase (take (length kw) ?body) = kw \<and> ?r \<noteq> [] \<and> is_space (hd ?r)
          \<and> (\<exists>x\<in>set (tl ?r). dot x)"
        using True c by blast
      have d0: "directive kw q = Some (takeWhile dot (dropWhile is_space ?r))"
        unfolding directive_def Let_def using cond by (rule if_P)
      have "dropWhile is_space ?r = dropWhile is_space rest" unfolding r(1) using r(2) by simp
      then have d: "directive kw q = Some (takeWhile dot (dropWhile is_space rest))"
        using d0 by simp
      show ?thesis
      proof (cases "dropWhile is_space rest = []")
        case False
        obtain p' sts where "ms ?T (?p1, w # rest, ?c1)
            = (p', dropWhile dot (dropWhile is_space rest),
               (2, takeWhile dot (dropWhile is_space rest)) # ?c1) # sts"
          using name_first[OF r(2) False, of 2 ?p1 ?c1] by blast
        then have "?M = (p', dropWhile dot (dropWhile is_space rest),
               (2, takeWhile dot (dropWhile is_space rest)) # ?c1) # sts"
          using M r(1) by (simp del: ms.simps)
        then have "rx_match (Seq (Bol False) (Seq (Grp 1 (Star is_space)) (Seq (liti kw) ?T))) q
            = Some (take (length q - length (dropWhile dot (dropWhile is_space rest))) q,
                    (2, takeWhile dot (dropWhile is_space rest)) # ?c1)"
          using m by (simp del: ms.simps)
        then show ?thesis unfolding d by (simp add: grp_def)
      next
        case Nil: True
        have "\<exists>st. st \<in> set (ms ?T (?p1, ?r, ?c1))"
          unfolding name_exists_iff using c by blast
        then obtain st sts where ne: "ms ?T (?p1, ?r, ?c1) = st # sts"
          by (cases "ms ?T (?p1, ?r, ?c1)") (auto simp del: ms.simps)
        then have "st \<in> set (ms ?T (?p1, ?r, ?c1))" by simp
        then obtain u t s' where t: "?r = u @ t @ s'" "st = (after (after ?p1 u) t, s', (2, t) # ?c1)"
          unfolding ms_Plus_Grp_iff by blast
        have "\<forall>x\<in>set rest. is_space x" using Nil by (simp add: dropWhile_eq_Nil_conv)
        then have "\<forall>x\<in>set ?r. is_space x" using r by simp
        then have "\<forall>x\<in>set t. is_space x" unfolding t(1) by simp
        then have nt: "normalized_name t = []" by (rule normalized_name_spaces)
        have "?M = (after (after ?p1 u) t, s', (2, t) # ?c1) # sts" using M ne t(2) by (simp del: ms.simps)
        then have "rx_match (Seq (Bol False) (Seq (Grp 1 (Star is_space)) (Seq (liti kw) ?T))) q
            = Some (take (length q - length s') q, (2, t) # ?c1)"
          using m by (simp del: ms.simps)
        moreover have "normalized_name (takeWhile dot (dropWhile is_space rest)) = []"
          unfolding Nil by (simp add: normalized_name_spaces)
        ultimately show ?thesis unfolding d using nt by (simp add: grp_def)
      qed
    qed
  qed
qed

lemma activate_directive:
  "case directive ''activate'' q of
     None \<Rightarrow> rx_match activate_rx q = None
   | Some nm \<Rightarrow> (\<exists>m c. rx_match activate_rx q = Some (m, c)
         \<and> normalizeParticipantId (grp c 2) = normalized_name nm)"
proof -
  have l: "toLowerCase ''activate'' = ''activate''" by code_simp
  have k: "is_lower CHR ''a''" by (simp add: is_lower_def)
  have n: "normalizeParticipantId = normalized_name"
    by (rule ext) (simp add: normalizeParticipantId_def normalized_name_def)
  show ?thesis
    unfolding activate_rx_def seqs.simps n
    by (rule directive_rx_match[where k = "CHR ''a''" and ks = "''ctivate''", OF _ k l]) simp
qed

lemma deactivate_directive:
  "case directive ''deactivate'' q of
     None \<Rightarrow> rx_match deactivate_rx q = None
   | Some nm \<Rightarrow> (\<exists>m c. rx_match deactivate_rx q = Some (m, c)
         \<and> normalizeParticipantId (grp c 2) = normalized_name nm)"
proof -
  have l: "toLowerCase ''deactivate'' = ''deactivate''" by code_simp
  have k: "is_lower CHR ''d''" by (simp add: is_lower_def)
  have n: "normalizeParticipantId = normalized_name"
    by (rule ext) (simp add: normalizeParticipantId_def normalized_name_def)
  show ?thesis
    unfolding deactivate_rx_def seqs.simps n
    by (rule directive_rx_match[where k = "CHR ''d''" and ks = "''eactivate''", OF _ k l]) simp
qed

lemma directive_exclusive:
  assumes "directive ''activate'' q = Some nm"
  shows "directive ''deactivate'' q = None"
proof (cases "directive ''deactivate'' q")
  case None
  then show ?thesis .
next
  case (Some nm')
  obtain m c where "rx_match activate_rx q = Some (m, c)"
    using activate_directive[of q] assms by auto
  then have a: "rx_test activate_rx q" by (rule rx_match_Some_test)
  obtain m' c' where "rx_match deactivate_rx q = Some (m', c')"
    using deactivate_directive[of q] Some by auto
  then have "rx_test deactivate_rx q" by (rule rx_match_Some_test)
  then have "\<not> rx_test activate_rx q" by (rule deactivate_not_activate)
  then show ?thesis using a by simp
qed

lemma sequenceStep_spec:
  assumes "[] \<notin> A"
  shows "sequenceStep (A, out) l =
      (activation_step A l, out @ (if dropped A l then [] else [quoteMessage l]))"
proof (cases "directive ''activate'' (quoteMessage l)")
  case (Some nm)
  obtain m c where a: "rx_match activate_rx (quoteMessage l) = Some (m, c)"
      "normalizeParticipantId (grp c 2) = normalized_name nm"
    using activate_directive[of "quoteMessage l"] Some by auto
  have d: "directive ''deactivate'' (quoteMessage l) = None"
    using Some by (rule directive_exclusive)
  show ?thesis
    using a by (auto simp add: sequenceStep_def Let_def activation_step_def dropped_def Some d)
next
  case None
  then have a: "rx_match activate_rx (quoteMessage l) = None"
    using activate_directive[of "quoteMessage l"] by simp
  show ?thesis
  proof (cases "directive ''deactivate'' (quoteMessage l)")
    case n: None
    then have "rx_match deactivate_rx (quoteMessage l) = None"
      using deactivate_directive[of "quoteMessage l"] by simp
    then show ?thesis
      using a by (simp add: sequenceStep_def Let_def activation_step_def dropped_def None n)
  next
    case (Some nm)
    obtain m c where b: "rx_match deactivate_rx (quoteMessage l) = Some (m, c)"
        "normalizeParticipantId (grp c 2) = normalized_name nm"
      using deactivate_directive[of "quoteMessage l"] Some by auto
    show ?thesis
      using a b assms
      by (auto simp add: sequenceStep_def Let_def activation_step_def dropped_def None Some)
  qed
qed

lemma activation_step_nonempty: "[] \<notin> A \<Longrightarrow> [] \<notin> activation_step A l"
  by (auto simp: activation_step_def split: option.splits)

lemma activation_snoc: "activation (pre @ [l]) = activation_step (activation pre) l"
  by (simp add: activation_def)

lemma activation_nonempty: "[] \<notin> activation pre"
proof (induction pre rule: rev_induct)
  case Nil
  then show ?case by (simp add: activation_def)
next
  case (snoc l pre)
  then show ?case unfolding activation_snoc by (rule activation_step_nonempty)
qed

lemma foldl_sequenceStep_spec:
  "foldl sequenceStep (activation pre, out) ls = (activation (pre @ ls), out @ sequence_lines pre ls)"
proof (induction ls arbitrary: pre out)
  case Nil
  then show ?case by simp
next
  case (Cons l ls)
  have "foldl sequenceStep (activation pre, out) (l # ls)
      = foldl sequenceStep (sequenceStep (activation pre, out) l) ls"
    by simp
  also have "sequenceStep (activation pre, out) l
      = (activation (pre @ [l]), out @ (if dropped (activation pre) l then [] else [quoteMessage l]))"
    unfolding activation_snoc by (rule sequenceStep_spec) (rule activation_nonempty)
  also have "foldl sequenceStep \<dots> ls = (activation ((pre @ [l]) @ ls),
      (out @ (if dropped (activation pre) l then [] else [quoteMessage l])) @ sequence_lines (pre @ [l]) ls)"
    by (rule Cons.IH)
  finally show ?case by simp
qed

lemma sequence_lines_append:
  "sequence_lines pre (xs @ ys) = sequence_lines pre xs @ sequence_lines (pre @ xs) ys"
  by (induction xs arbitrary: pre) auto

lemma activation_deactivate:
  assumes "directive ''deactivate'' (quoteMessage line) = Some nm"
  shows "activation (pre @ [line]) = activation pre - {normalized_name nm}"
proof -
  have "directive ''activate'' (quoteMessage line) = None"
  proof (cases "directive ''activate'' (quoteMessage line)")
    case None
    then show ?thesis .
  next
    case (Some nm')
    then have "directive ''deactivate'' (quoteMessage line) = None" by (rule directive_exclusive)
    then show ?thesis using assms by simp
  qed
  then show ?thesis unfolding activation_snoc using assms by (simp add: activation_step_def)
qed

lemma sanitizeSequence_spec:
  "sanitizeSequence code = join [nl] (sequence_lines [] (split_on nl code))"
proof -
  have "foldl sequenceStep ({}, []) (split_on nl code)
      = (activation ([] @ split_on nl code), [] @ sequence_lines [] (split_on nl code))"
    using foldl_sequenceStep_spec[of "[]" "[]" "split_on nl code"] by (simp add: activation_def)
  then show ?thesis by (simp add: sanitizeSequence_def)
qed

lemma message_rx_hyphen:
  assumes "rx_test message_rx l"
  shows "CHR ''-'' \<in> set l"
proof -
  from assms obtain pre sfx st where l: "l = pre @ sfx"
      and st: "st \<in> set (ms message_rx (after None pre, sfx, []))"
    unfolding rx_test_iff by blast
  from st obtain st1 where "st1 \<in> set (ms (Grp 1 (Seq (Star dot)
      (Seq (Alt (lit ''->>'') (Alt (lit ''-->>'') (Alt (lit ''->'') (Alt (lit ''-->'')
              (Alt (lit ''-x'') (lit ''--x''))))))
         (Seq (Star is_space) (Seq (Plus (\<lambda>c. is_word c \<or> c = dq \<or> c = sq))
            (Seq (Star is_space) (Seq (Ch ((=) CHR '':'')) (Star is_space)))))))) (after None pre, sfx, []))"
    unfolding message_rx_def seqs.simps alts.simps by (subst (asm) ms_Seq_iff) blast
  then obtain st2 where "st2 \<in> set (ms (Seq (Star dot)
      (Seq (Alt (lit ''->>'') (Alt (lit ''-->>'') (Alt (lit ''->'') (Alt (lit ''-->'')
              (Alt (lit ''-x'') (lit ''--x''))))))
         (Seq (Star is_space) (Seq (Plus (\<lambda>c. is_word c \<or> c = dq \<or> c = sq))
            (Seq (Star is_space) (Seq (Ch ((=) CHR '':'')) (Star is_space))))))) (after None pre, sfx, []))"
    unfolding ms_Grp_iff by blast
  then obtain st3 where 3: "st3 \<in> set (ms (Star dot) (after None pre, sfx, []))"
      and 4: "st2 \<in> set (ms
      (Seq (Alt (lit ''->>'') (Alt (lit ''-->>'') (Alt (lit ''->'') (Alt (lit ''-->'')
              (Alt (lit ''-x'') (lit ''--x''))))))
         (Seq (Star is_space) (Seq (Plus (\<lambda>c. is_word c \<or> c = dq \<or> c = sq))
            (Seq (Star is_space) (Seq (Ch ((=) CHR '':'')) (Star is_space)))))) st3)"
    by (subst (asm) ms_Seq_iff) blast
  from 3 obtain u s2 where u: "sfx = u @ s2" "st3 = (after (after None pre) u, s2, [])"
    unfolding ms_Star_iff by blast
  from 4 obtain st4 where "st4 \<in> set (ms
      (Alt (lit ''->>'') (Alt (lit ''-->>'') (Alt (lit ''->'') (Alt (lit ''-->'')
              (Alt (lit ''-x'') (lit ''--x'')))))) (after (after None pre) u, s2, []))"
    unfolding u(2) by (subst (asm) ms_Seq_iff) blast
  then have "\<exists>s'. s2 = CHR ''-'' # s'"
    by (simp only: ms_Alt_iff ms_lit_iff) auto
  then show ?thesis using l u(1) by auto
qed

lemma quoteMessage_no_hyphen: "CHR ''-'' \<notin> set l \<Longrightarrow> quoteMessage l = l"
proof -
  assume "CHR ''-'' \<notin> set l"
  then have "\<not> rx_test message_rx l" using message_rx_hyphen by blast
  then have "rx_match message_rx l = None" unfolding rx_match_None_iff .
  then show ?thesis by (simp add: quoteMessage_def)
qed

section \<open>Captures that are always defined\<close>

lemma ms_caps_unchanged:
  "st \<in> set (ms (Bol m) (p, s, c)) \<Longrightarrow> snd (snd st) = c"
  "st \<in> set (ms (Eol m) (p, s, c)) \<Longrightarrow> snd (snd st) = c"
  "st \<in> set (ms (Ahead P) (p, s, c)) \<Longrightarrow> snd (snd st) = c"
  "st \<in> set (ms (NotAhead P) (p, s, c)) \<Longrightarrow> snd (snd st) = c"
  by (auto split: option.splits list.splits if_splits)

lemma ms_groups:
  "st \<in> set (ms r (p, s, c)) \<Longrightarrow>
     fst ` set c \<subseteq> fst ` set (snd (snd st)) \<and> groups r \<subseteq> fst ` set (snd (snd st))"
proof (induction r arbitrary: p s c st)
  case Eps
  then show ?case by simp
next
  case (Ch P)
  then obtain x s' where "st = (Some x, s', c)" unfolding ms_Ch_iff by blast
  then show ?case by simp
next
  case (Seq a b)
  from Seq.prems obtain st1 where 1: "st1 \<in> set (ms a (p, s, c))" and 2: "st \<in> set (ms b st1)"
    by (subst (asm) ms_Seq_iff) blast
  obtain p1 s1 c1 where st1: "st1 = (p1, s1, c1)" by (cases st1)
  have A: "fst ` set c \<subseteq> fst ` set c1" "groups a \<subseteq> fst ` set c1"
    using Seq.IH(1)[OF 1] st1 by simp_all
  have second: "st \<in> set (ms b (p1, s1, c1))" using 2 st1 by simp
  have B: "fst ` set c1 \<subseteq> fst ` set (snd (snd st))" "groups b \<subseteq> fst ` set (snd (snd st))"
    using Seq.IH(2)[OF second] by simp_all
  have "fst ` set c \<subseteq> fst ` set (snd (snd st))" using A(1) B(1) by (rule subset_trans)
  moreover have "groups a \<subseteq> fst ` set (snd (snd st))" using A(2) B(1) by (rule subset_trans)
  ultimately show ?case using B(2) by simp
next
  case (Alt a b)
  from Alt.prems have "st \<in> set (ms a (p, s, c)) \<or> st \<in> set (ms b (p, s, c))"
    by (simp only: ms_Alt_iff)
  then show ?case
  proof
    assume "st \<in> set (ms a (p, s, c))"
    from Alt.IH(1)[OF this] show ?thesis by (simp add: le_infI1)
  next
    assume "st \<in> set (ms b (p, s, c))"
    from Alt.IH(2)[OF this] show ?thesis by (simp add: le_infI2)
  qed
next
  case (Star P)
  then obtain u s' where "st = (after p u, s', c)" unfolding ms_Star_iff by blast
  then show ?case by simp
next
  case (Lazy P)
  then obtain u s' where "st = (after p u, s', c)" unfolding ms_Lazy_iff by blast
  then show ?case by simp
next
  case (Grp n a)
  from Grp.prems obtain p' s' c' where g: "(p', s', c') \<in> set (ms a (p, s, c))"
      "st = (p', s', (n, take (length s - length s') s) # c')"
    unfolding ms_Grp_iff by blast
  have "fst ` set c \<subseteq> fst ` set c'" "groups a \<subseteq> fst ` set c'" using Grp.IH[OF g(1)] by simp_all
  then show ?case unfolding g(2) by (simp add: subset_insertI2)
next
  case (Bol m)
  then have "snd (snd st) = c" by (rule ms_caps_unchanged(1))
  then show ?case by simp
next
  case (Eol m)
  then have "snd (snd st) = c" by (rule ms_caps_unchanged(2))
  then show ?case by simp
next
  case (Ahead P)
  then have "snd (snd st) = c" by (rule ms_caps_unchanged(3))
  then show ?case by simp
next
  case (NotAhead P)
  then have "snd (snd st) = c" by (rule ms_caps_unchanged(4))
  then show ?case by simp
qed

lemma ms_hd_groups:
  assumes "ms r (p, s, []) = (p', s', c) # sts"
  shows "groups r \<subseteq> fst ` set c"
proof -
  have "(p', s', c) \<in> set (ms r (p, s, []))" unfolding assms by simp
  from ms_groups[OF this] show ?thesis by simp
qed

lemma rx_search_groups:
  "rx_search r p s = Some (pre, m, c, p', s') \<Longrightarrow> groups r \<subseteq> fst ` set c"
proof (induction s arbitrary: p pre)
  case Nil
  then obtain sts where "ms r (p, [], []) = (p', s', c) # sts"
    by (cases "ms r (p, [], [])") (auto simp del: ms.simps)
  then show ?case by (rule ms_hd_groups)
next
  case (Cons x xs)
  show ?case
  proof (cases "ms r (p, x # xs, [])")
    case Nil
    then obtain pre' where "rx_search r (Some x) xs = Some (pre', m, c, p', s')"
      using Cons.prems by (auto simp del: ms.simps split: option.splits)
    then show ?thesis by (rule Cons.IH)
  next
    case (Cons st sts)
    then have "ms r (p, x # xs, []) = (p', s', c) # sts"
      using Cons.prems by (cases st) (auto simp del: ms.simps)
    then show ?thesis by (rule ms_hd_groups)
  qed
qed

lemma rx_match_groups: "rx_match r s = Some (m, c) \<Longrightarrow> groups r \<subseteq> fst ` set c"
proof -
  assume "rx_match r s = Some (m, c)"
  then obtain pre p' s' where "rx_search r None s = Some (pre, m, c, p', s')"
    by (auto simp: rx_match_def split: option.splits)
  then show ?thesis by (rule rx_search_groups)
qed

lemma rx_scan_groups: "Hit m c \<in> set (rx_scan r k p s) \<Longrightarrow> groups r \<subseteq> fst ` set c"
proof (induction s arbitrary: k p)
  case Nil
  show ?case
  proof (cases "ms r (p, [], [])")
    case Nil
    then have "rx_scan r k p [] = []" by (simp del: ms.simps)
    then show ?thesis using Nil.prems by simp
  next
    case (Cons st sts)
    obtain p' s' c' where st: "st = (p', s', c')" by (cases st)
    have "rx_scan r k p [] = (if k = 0 then [Hit [] c'] else [])"
      using Cons st by (simp del: ms.simps)
    then have "c = c'" using Nil.prems by (auto split: if_splits)
    then show ?thesis using ms_hd_groups Cons st by blast
  qed
next
  case (Cons x xs)
  show ?case
  proof (cases "0 < k")
    case True
    then have "rx_scan r k p (x # xs) = rx_scan r (k - 1) (Some x) xs" by (simp del: ms.simps)
    then show ?thesis using Cons.prems Cons.IH by simp
  next
    case k: False
    show ?thesis
    proof (cases "ms r (p, x # xs, [])")
      case Nil
      then have "rx_scan r k p (x # xs) = Keep x # rx_scan r 0 (Some x) xs"
        using k by (simp del: ms.simps)
      then show ?thesis using Cons.prems Cons.IH by simp
    next
      case c: (Cons st sts)
      obtain p' s' c' where st: "st = (p', s', c')" by (cases st)
      let ?n = "length (x # xs) - length s'"
      have e: "rx_scan r k p (x # xs) =
          Hit (take ?n (x # xs)) c' #
            (if ?n = 0 then Keep x # rx_scan r 0 (Some x) xs else rx_scan r (?n - 1) (Some x) xs)"
        using k c st by (simp del: ms.simps add: Let_def)
      have "ms r (p, x # xs, []) = (p', s', c') # sts" using c st by simp
      then have g: "groups r \<subseteq> fst ` set c'" by (rule ms_hd_groups)
      from Cons.prems have "c = c' \<or> Hit m c \<in> set (rx_scan r 0 (Some x) xs)
          \<or> Hit m c \<in> set (rx_scan r (?n - 1) (Some x) xs)"
        unfolding e by (auto split: if_splits)
      then show ?thesis using g Cons.IH by blast
    qed
  qed
qed

lemma capture_grp: "n \<in> fst ` set c \<Longrightarrow> capture c n = Some (grp c n)"
proof -
  assume "n \<in> fst ` set c"
  then have "map_of c n \<noteq> None" by (simp add: map_of_eq_None_iff)
  then show ?thesis by (auto simp: capture_def grp_def)
qed

lemma and_then_Inr [simp]: "and_then (Inr x) f = f x"
  by (simp add: and_then_def)

lemma receiver_Some [simp]: "receiver (Some t) = Inr t"
  by (simp add: receiver_def)

lemma interpolate_Some [simp]: "interpolate (Some t) = t"
  by (simp add: interpolate_def)

lemma map_result_Inr: "(\<And>x. x \<in> set xs \<Longrightarrow> f x = Inr (g x)) \<Longrightarrow> map_result f xs = Inr (map g xs)"
  by (induction xs) auto

lemma fold_result_Inr: "(\<And>s x. f s x = Inr (g s x)) \<Longrightarrow> fold_result f s xs = Inr (foldl g s xs)"
  by (induction xs arbitrary: s) auto

lemma rx_replace_exn_Inr:
  assumes "\<And>m c. Hit m c \<in> set (rx_scan r 0 None s) \<Longrightarrow> f m c = Inr (g m c)"
  shows "rx_replace_exn r f s = Inr (rx_replace r g s)"
proof -
  have "seg_text_exn f x = Inr (seg_text g x)" if "x \<in> set (rx_scan r 0 None s)" for x
  proof (cases x)
    case (Keep y)
    then show ?thesis by simp
  next
    case (Hit m c)
    then show ?thesis using that assms by simp
  qed
  then have "map_result (seg_text_exn f) (rx_scan r 0 None s) = Inr (map (seg_text g) (rx_scan r 0 None s))"
    by (rule map_result_Inr)
  then show ?thesis by (simp add: rx_replace_exn_def rx_replace_def)
qed

lemma groups_liti [simp]: "groups (liti k) = {}"
  by (induction k) auto

lemma groups_lit [simp]: "groups (lit k) = {}"
  by (induction k) auto

lemma pattern_groups:
  "1 \<in> groups direction_rx"
  "1 \<in> groups (node_rx opn cls)" "2 \<in> groups (node_rx opn cls)"
  "1 \<in> groups edge_label_rx" "2 \<in> groups edge_label_rx"
  "1 \<in> groups class_shorthand_rx" "2 \<in> groups class_shorthand_rx"
  "1 \<in> groups relation_rx" "2 \<in> groups relation_rx"
  "1 \<in> groups message_rx" "2 \<in> groups message_rx"
  "2 \<in> groups activate_rx" "2 \<in> groups deactivate_rx"
  by (simp_all add: direction_rx_def node_rx_def edge_label_rx_def class_shorthand_rx_def
      relation_rx_def message_rx_def activate_rx_def deactivate_rx_def)

lemma match_capture:
  "rx_match r s = Some (m, c) \<Longrightarrow> n \<in> groups r \<Longrightarrow> capture c n = Some (grp c n)"
  using rx_match_groups capture_grp by blast

lemma hit_capture:
  "Hit m c \<in> set (rx_scan r k p s) \<Longrightarrow> n \<in> groups r \<Longrightarrow> capture c n = Some (grp c n)"
  using rx_scan_groups capture_grp by blast

lemma headerStep_exn_eq: "headerStep_exn st statement = Inr (headerStep st statement)"
proof (cases "rx_match direction_rx statement")
  case None
  then show ?thesis by (simp add: headerStep_exn_def headerStep_def Let_def split: prod.splits)
next
  case (Some mc)
  obtain m c where mc: "mc = (m, c)" by (cases mc)
  have "capture c 1 = Some (grp c 1)"
    using Some mc pattern_groups(1) match_capture by blast
  then show ?thesis
    using Some mc by (simp add: headerStep_exn_def headerStep_def Let_def split: prod.splits)
qed

lemma formatNodes_exn_eq: "formatNodes_exn normalized br = Inr (formatNodes normalized br)"
proof -
  obtain opn cls where br: "br = (opn, cls)" by (cases br)
  show ?thesis
    unfolding br formatNodes_exn_def formatNodes_def prod.case
  proof (rule rx_replace_exn_Inr)
    fix m c assume h: "Hit m c \<in> set (rx_scan (node_rx opn cls) 0 None normalized)"
    have "capture c 1 = Some (grp c 1)" "capture c 2 = Some (grp c 2)"
      using h pattern_groups(2,3) hit_capture by blast+
    then show "and_then (formatNodeContent_exn (capture c 2))
          (\<lambda>formatted. Inr (interpolate (capture c 1) @ [opn] @ formatted @ [cls]))
        = Inr (grp c 1 @ [opn] @ formatNodeContent (grp c 2) @ [cls])"
      by (simp add: formatNodeContent_exn_def)
  qed
qed

lemma normalizeLine_exn_eq: "normalizeLine_exn line = Inr (normalizeLine line)"
proof -
  let ?n = "trim (filter (\<lambda>c. c \<noteq> CHR '';'') line)"
  let ?n1 = "rx_replace dangling_rx (\<lambda>m c. []) ?n"
  let ?n2 = "foldl formatNodes ?n1 NODE_BRACKETS"
  have f: "fold_result formatNodes_exn ?n1 NODE_BRACKETS = Inr ?n2"
    by (rule fold_result_Inr) (rule formatNodes_exn_eq)
  have e: "rx_replace_exn edge_label_rx
        (\<lambda>m c. and_then (cleanLabel_exn (capture c 2))
                 (\<lambda>cleaned. Inr (interpolate (capture c 1) @ ''|'' @ [dq] @ cleaned @ [dq] @ ''|'')))
        ?n2
      = Inr (rx_replace edge_label_rx
          (\<lambda>m c. grp c 1 @ ''|'' @ [dq] @ cleanLabel (grp c 2) @ [dq] @ ''|'') ?n2)"
  proof (rule rx_replace_exn_Inr)
    fix m c assume h: "Hit m c \<in> set (rx_scan edge_label_rx 0 None ?n2)"
    have "capture c 1 = Some (grp c 1)" "capture c 2 = Some (grp c 2)"
      using h pattern_groups(4,5) hit_capture by blast+
    then show "and_then (cleanLabel_exn (capture c 2))
          (\<lambda>cleaned. Inr (interpolate (capture c 1) @ ''|'' @ [dq] @ cleaned @ [dq] @ ''|''))
        = Inr (grp c 1 @ ''|'' @ [dq] @ cleanLabel (grp c 2) @ [dq] @ ''|'')"
      by (simp add: cleanLabel_exn_def)
  qed
  show ?thesis
    using e by (simp add: normalizeLine_exn_def normalizeLine_def Let_def f)
qed

lemma normalizeGraphDiagram_exn_eq: "normalizeGraphDiagram_exn code = Inr (normalizeGraphDiagram code)"
proof -
  have f: "fold_result headerStep_exn st xs = Inr (foldl headerStep st xs)" for st xs
    by (rule fold_result_Inr) (rule headerStep_exn_eq)
  have m: "map_result normalizeLine_exn body = Inr (map normalizeLine body)" for body
    by (rule map_result_Inr) (rule normalizeLine_exn_eq)
  show ?thesis
    unfolding normalizeGraphDiagram_exn_def normalizeGraphDiagram_def Let_def f
    by (simp add: m split: prod.splits)
qed

lemma erdLine_exn_eq: "erdLine_exn line = Inr (erdLine line)"
proof -
  let ?c1 = "rx_replace class_semicolon_rx (\<lambda>m c. grp c 1) (trim line)"
  show ?thesis
  proof (cases "rx_match relation_rx ?c1")
    case None
    then show ?thesis by (simp add: erdLine_exn_def erdLine_def Let_def)
  next
    case (Some mc)
    obtain m c where mc: "mc = (m, c)" by (cases mc)
    have "capture c 1 = Some (grp c 1)" "capture c 2 = Some (grp c 2)"
      using Some mc pattern_groups(8,9) match_capture by blast+
    then show ?thesis
      using Some mc by (simp add: erdLine_exn_def erdLine_def Let_def)
  qed
qed

lemma seg_hits_iff: "(m, c) \<in> set (seg_hits gs) \<longleftrightarrow> Hit m c \<in> set gs"
  by (induction gs rule: seg_hits.induct) auto

lemma map_filter_id_map: "List.map_filter id (map f xs) = List.map_filter f xs"
  by (simp add: List.map_filter_def filter_map comp_def)

lemma sanitizeErd_exn_eq: "sanitizeErd_exn code = Inr (sanitizeErd code)"
proof -
  let ?w = "rx_replace fence_rx (\<lambda>m c. []) code"
  have a: "map_result
       (\<lambda>(m, c). and_then (receiver (capture c 1))
                   (\<lambda>entity. Inr (''class '' @ trim entity @ '' '' @ interpolate (capture c 2))))
       (rx_matches class_shorthand_rx ?w)
     = Inr (map (\<lambda>(m, c). ''class '' @ trim (grp c 1) @ '' '' @ grp c 2)
         (rx_matches class_shorthand_rx ?w))"
  proof (rule map_result_Inr)
    fix x assume x: "x \<in> set (rx_matches class_shorthand_rx ?w)"
    obtain m c where mc: "x = (m, c)" by (cases x)
    have "Hit m c \<in> set (rx_scan class_shorthand_rx 0 None ?w)"
      using x mc by (simp add: rx_matches_def seg_hits_iff)
    then have "capture c 1 = Some (grp c 1)" "capture c 2 = Some (grp c 2)"
      using pattern_groups(6,7) hit_capture by blast+
    then show "(case x of (m, c) \<Rightarrow> and_then (receiver (capture c 1))
                   (\<lambda>entity. Inr (''class '' @ trim entity @ '' '' @ interpolate (capture c 2))))
        = Inr (case x of (m, c) \<Rightarrow> ''class '' @ trim (grp c 1) @ '' '' @ grp c 2)"
      unfolding mc by simp
  qed
  have b: "rx_replace_exn class_shorthand_rx (\<lambda>m c. Inr (interpolate (capture c 1))) ?w
      = Inr (rx_replace class_shorthand_rx (\<lambda>m c. grp c 1) ?w)"
  proof (rule rx_replace_exn_Inr)
    fix m c assume "Hit m c \<in> set (rx_scan class_shorthand_rx 0 None ?w)"
    then have "capture c 1 = Some (grp c 1)" using pattern_groups(6) hit_capture by blast
    then show "Inr (interpolate (capture c 1)) = Inr (grp c 1)" by simp
  qed
  have c: "map_result erdLine_exn ls = Inr (map erdLine ls)" for ls
    by (rule map_result_Inr) (rule erdLine_exn_eq)
  show ?thesis
    unfolding sanitizeErd_exn_def sanitizeErd_def Let_def a b
    by (simp add: c map_filter_id_map)
qed

lemma quoteMessage_exn_eq: "quoteMessage_exn line = Inr (quoteMessage line)"
proof (cases "rx_match message_rx line")
  case None
  then show ?thesis by (simp add: quoteMessage_exn_def quoteMessage_def)
next
  case (Some mc)
  obtain m c where mc: "mc = (m, c)" by (cases mc)
  have "capture c 1 = Some (grp c 1)" "capture c 2 = Some (grp c 2)"
    using Some mc pattern_groups(10,11) match_capture by blast+
  then show ?thesis
    using Some mc by (simp add: quoteMessage_exn_def quoteMessage_def Let_def)
qed

lemma sequenceStep_exn_eq: "sequenceStep_exn st line = Inr (sequenceStep st line)"
proof -
  obtain A out where st: "st = (A, out)" by (cases st)
  let ?q = "quoteMessage line"
  show ?thesis
  proof (cases "rx_match activate_rx ?q")
    case (Some mc)
    obtain m c where mc: "mc = (m, c)" by (cases mc)
    have "capture c 2 = Some (grp c 2)"
      using Some mc pattern_groups(12) match_capture by blast
    then show ?thesis
      using Some mc
      by (simp add: st sequenceStep_exn_def sequenceStep_def Let_def quoteMessage_exn_eq
          normalizeParticipantId_exn_def)
  next
    case None
    show ?thesis
    proof (cases "rx_match deactivate_rx ?q")
      case n: None
      then show ?thesis
        using None
        by (simp add: st sequenceStep_exn_def sequenceStep_def Let_def quoteMessage_exn_eq)
    next
      case (Some mc)
      obtain m c where mc: "mc = (m, c)" by (cases mc)
      have "capture c 2 = Some (grp c 2)"
        using Some mc pattern_groups(13) match_capture by blast
      then show ?thesis
        using Some mc None
        by (simp add: st sequenceStep_exn_def sequenceStep_def Let_def quoteMessage_exn_eq
            normalizeParticipantId_exn_def)
    qed
  qed
qed

lemma sanitizeSequence_exn_eq: "sanitizeSequence_exn code = Inr (sanitizeSequence code)"
proof -
  have "fold_result sequenceStep_exn st xs = Inr (foldl sequenceStep st xs)" for st xs
    by (rule fold_result_Inr) (rule sequenceStep_exn_eq)
  then show ?thesis by (simp add: sanitizeSequence_exn_def sanitizeSequence_def)
qed

lemma sanitizeMermaidCode_exn_eq: "sanitizeMermaidCode_exn code = Inr (sanitizeMermaidCode code)"
  by (simp add: sanitizeMermaidCode_exn_def sanitizeMermaidCode_def Let_def
      normalizeGraphDiagram_exn_eq sanitizeErd_exn_eq sanitizeSequence_exn_eq)

lemma count_unescaped_replace:
  "count_unescaped p (replace_char dq [bsl, dq] s) = 0"
proof (induction s arbitrary: p)
  case Nil
  then show ?case by (simp add: replace_char_def)
next
  case (Cons x xs)
  have r: "replace_char dq [bsl, dq] (x # xs)
      = (if x = dq then [bsl, dq] else [x]) @ replace_char dq [bsl, dq] xs"
    by (simp add: replace_char_def)
  show ?case unfolding r using Cons.IH by simp
qed

lemma count_unescaped_cleanLabel: "count_unescaped p (cleanLabel text) = 0"
  by (simp add: cleanLabel_def Let_def escapeLabel_def count_unescaped_replace)

section \<open>Dialect dispatcher\<close>

text \<open>
  C5, as the code has it. An input that trims to the empty string is mapped to the empty string.
  An input whose trimmed form is not empty and does not have \<^verbatim>\<open>graph\<close>, \<^verbatim>\<open>erDiagram\<close> or
  \<^verbatim>\<open>sequenceDiagram\<close> as a prefix (\<^verbatim>\<open>startsWith\<close>, case-sensitive) is returned trimmed and
  otherwise unchanged.
\<close>

theorem sanitize_dispatch:
  "(trim code = [] \<longrightarrow> sanitizeMermaidCode code = []) \<and>
   (trim code \<noteq> [] \<and> \<not> (\<exists>r. trim code = ''graph'' @ r) \<and> \<not> (\<exists>r. trim code = ''erDiagram'' @ r)
      \<and> \<not> (\<exists>r. trim code = ''sequenceDiagram'' @ r)
    \<longrightarrow> sanitizeMermaidCode code = trim code)"
  unfolding sanitizeMermaidCode_def Let_def startsWith_iff by simp

theorem sanitize_dispatch_witness:
  "sanitizeMermaidCode [CHR '' '', nl] = [] \<and> sanitizeMermaidCode '' gantt '' = ''gantt''"
proof -
  have e: "trim [CHR '' '', nl] = []" by code_simp
  have t: "trim '' gantt '' = ''gantt''" by code_simp
  show ?thesis
    using sanitize_dispatch [of "[CHR '' '', nl]"] sanitize_dispatch [of "'' gantt ''"]
    unfolding e t by simp
qed

text \<open>
  The dispatcher tests a prefix, not a token: the first token of \<^verbatim>\<open>graphs\<close> is none of the three
  keywords, and yet the input is routed to the flow-graph normalizer, which puts a header line
  in front of it.
\<close>

theorem sanitize_first_token_counterexample:
  "trim ''graphs'' \<noteq> [] \<and>
   spec_first_token (trim ''graphs'') \<noteq> ''graph'' \<and>
   spec_first_token (trim ''graphs'') \<noteq> ''erDiagram'' \<and>
   spec_first_token (trim ''graphs'') \<noteq> ''sequenceDiagram'' \<and>
   sanitizeMermaidCode ''graphs'' = ''graph TD'' @ [nl] @ ''graphs'' \<and>
   sanitizeMermaidCode ''graphs'' \<noteq> trim ''graphs''"
  by code_simp

section \<open>Label cleaner on a lone quote character\<close>

text \<open>
  C10. On the one-character input made of a double quote, and likewise of an apostrophe,
  \<^verbatim>\<open>cleanLabel\<close> returns the empty string: the character is both the opening and the closing
  quote, and \<^verbatim>\<open>slice(1, -1)\<close> of a one-character string is empty. Hence \<^verbatim>\<open>formatNodeContent\<close>
  of a lone double quote is the empty-quoted string.
\<close>

theorem cleanLabel_lone_quote:
  "cleanLabel [dq] = [] \<and> cleanLabel [sq] = [] \<and> formatNodeContent [dq] = [dq, dq]"
  by code_simp

section \<open>Validity classifier\<close>

text \<open>
  C3, as the code has it. \<^verbatim>\<open>hasRenderableGraphDiagram(text)\<close> is false when the text is absent
  or trims to the empty string, false when the trimmed text does not begin with \<^verbatim>\<open>graph\<close> (in any letter
  case) followed by a white-space character, and false when no statement line remains, the
  statement lines being the non-empty trimmed lines that do not begin, in lower case, with
  \<^verbatim>\<open>graph\<close> and a space. It is true exactly when, besides the keyword test, some statement line
  contains a run of word characters followed by optional white space and one of \<^verbatim>\<open>[\<close>, \<^verbatim>\<open>(\<close>,
  \<^verbatim>\<open>{\<close>, and some statement line contains one of the arrow tokens \<^verbatim>\<open>-->\<close>, \<^verbatim>\<open>---\<close>, \<^verbatim>\<open>==>\<close>,
  \<^verbatim>\<open>=>\<close>, \<^verbatim>\<open>-.->\<close>, \<^verbatim>\<open>-+->\<close>.
\<close>

theorem hasRenderableGraphDiagram_iff:
  "\<not> hasRenderableGraphDiagram None \<and>
   (trim text = [] \<longrightarrow> \<not> hasRenderableGraphDiagram (Some text)) \<and>
   (\<not> graph_keyword (trim text) \<longrightarrow> \<not> hasRenderableGraphDiagram (Some text)) \<and>
   ((\<forall>l. \<not> statement_line (trim text) l) \<longrightarrow> \<not> hasRenderableGraphDiagram (Some text)) \<and>
   (hasRenderableGraphDiagram (Some text) \<longleftrightarrow>
      graph_keyword (trim text) \<and>
      (\<exists>l. statement_line (trim text) l \<and> node_bracket_pattern l) \<and>
      (\<exists>l. statement_line (trim text) l \<and> edge_arrow_token l))"
proof -
  have t: "trim [] = []" by (simp add: trim_def)
  have g: "\<not> graph_keyword []" by (simp add: graph_keyword_def)
  have main: "hasRenderableGraphDiagram (Some text) \<longleftrightarrow>
      graph_keyword (trim text) \<and>
      (\<exists>l. statement_line (trim text) l \<and> node_bracket_pattern l) \<and>
      (\<exists>l. statement_line (trim text) l \<and> edge_arrow_token l)"
  proof (cases "text = []")
    case True
    then show ?thesis by (simp add: hasRenderableGraphDiagram_def t g)
  next
    case False
    show ?thesis
    proof (cases "trim text = []")
      case True
      then show ?thesis using False by (simp add: hasRenderableGraphDiagram_def g)
    next
      case ne: False
      have "hasRenderableGraphDiagram (Some text) \<longleftrightarrow>
          graph_keyword (trim text) \<and>
          (\<exists>l\<in>set (statementLines (trim text)). node_bracket_pattern l) \<and>
          (\<exists>l\<in>set (statementLines (trim text)). edge_arrow_token l)"
        using False ne
        by (auto simp add: hasRenderableGraphDiagram_def Let_def graph_keyword_rx_iff
            list_ex_iff has_node_rx_iff has_edge_rx_iff)
      then show ?thesis unfolding Bex_def statementLines_iff .
    qed
  qed
  have none: "\<not> hasRenderableGraphDiagram None" by (simp add: hasRenderableGraphDiagram_def)
  show ?thesis using main g none by auto
qed

theorem hasRenderableGraphDiagram_iff_witness:
  "(graph_keyword (trim (''graph TD'' @ [nl] @ ''A[x] --> B'')) \<and>
    (\<exists>l. statement_line (trim (''graph TD'' @ [nl] @ ''A[x] --> B'')) l \<and> node_bracket_pattern l) \<and>
    (\<exists>l. statement_line (trim (''graph TD'' @ [nl] @ ''A[x] --> B'')) l \<and> edge_arrow_token l)) \<and>
   graph_keyword (trim ''graph x[ -->'') \<and> node_bracket_pattern ''graph x[ -->'' \<and>
   edge_arrow_token ''graph x[ -->'' \<and>
   \<not> ((\<exists>l. statement_line (trim ''graph x[ -->'') l \<and> node_bracket_pattern l) \<and>
      (\<exists>l. statement_line (trim ''graph x[ -->'') l \<and> edge_arrow_token l))"
proof -
  have a: "hasRenderableGraphDiagram (Some (''graph TD'' @ [nl] @ ''A[x] --> B''))"
    by code_simp
  have b: "\<not> hasRenderableGraphDiagram (Some ''graph x[ -->'')"
    by code_simp
  have k: "rx_test graph_keyword_rx (trim ''graph x[ -->'')" by code_simp
  have n: "rx_test has_node_rx ''graph x[ -->''" by code_simp
  have e: "rx_test has_edge_rx ''graph x[ -->''" by code_simp
  note A = hasRenderableGraphDiagram_iff [of "''graph TD'' @ [nl] @ ''A[x] --> B''", THEN conjunct2,
      THEN conjunct2, THEN conjunct2, THEN conjunct2]
  note B = hasRenderableGraphDiagram_iff [of "''graph x[ -->''", THEN conjunct2,
      THEN conjunct2, THEN conjunct2, THEN conjunct2]
  have 1: "graph_keyword (trim (''graph TD'' @ [nl] @ ''A[x] --> B'')) \<and>
    (\<exists>l. statement_line (trim (''graph TD'' @ [nl] @ ''A[x] --> B'')) l \<and> node_bracket_pattern l) \<and>
    (\<exists>l. statement_line (trim (''graph TD'' @ [nl] @ ''A[x] --> B'')) l \<and> edge_arrow_token l)"
    using A a by (rule iffD1)
  have k': "graph_keyword (trim ''graph x[ -->'')" using k by (simp only: graph_keyword_rx_iff)
  have n': "node_bracket_pattern ''graph x[ -->''" using n by (simp only: has_node_rx_iff)
  have e': "edge_arrow_token ''graph x[ -->''" using e by (simp only: has_edge_rx_iff)
  have 2: "\<not> ((\<exists>l. statement_line (trim ''graph x[ -->'') l \<and> node_bracket_pattern l) \<and>
      (\<exists>l. statement_line (trim ''graph x[ -->'') l \<and> edge_arrow_token l))"
  proof
    assume h: "(\<exists>l. statement_line (trim ''graph x[ -->'') l \<and> node_bracket_pattern l) \<and>
      (\<exists>l. statement_line (trim ''graph x[ -->'') l \<and> edge_arrow_token l)"
    have "hasRenderableGraphDiagram (Some ''graph x[ -->'')"
      by (rule iffD2[OF B]) (intro conjI k' conjunct1[OF h] conjunct2[OF h])
    with b show False ..
  qed
  show ?thesis by (rule conjI[OF 1 conjI[OF k' conjI[OF n' conjI[OF e' 2]]]])
qed

text \<open>
  White space may stand between the identifier and the bracket: the diagram below is accepted
  although no line of it has a word character directly before an opening bracket.
\<close>

theorem hasRenderableGraphDiagram_space_counterexample:
  "hasRenderableGraphDiagram (Some (''graph TD'' @ [nl] @ ''A [x] --> B'')) \<and>
   map trim (split_on nl (trim (''graph TD'' @ [nl] @ ''A [x] --> B''))) = [''graph TD'', ''A [x] --> B''] \<and>
   \<not> spec_node_bracket ''graph TD'' \<and> \<not> spec_node_bracket ''A [x] --> B''"
  by code_simp

section \<open>Sequence-diagram normalizer\<close>

text \<open>
  C6. The normalizer treats every line as the specification says. The line is first rewritten by
  the message-quoting step (a line without a hyphen has no message arrow and is left as it is).
  If the result is a \<^verbatim>\<open>deactivate <name>\<close> line, it is dropped from the output exactly when the
  normalized name (quote characters stripped, trimmed, lower-cased) is empty or is not in the
  activation set accumulated from the preceding lines; otherwise it is kept and the name is
  removed from the set. An \<^verbatim>\<open>activate <name>\<close> line is kept and adds its normalized name, unless
  empty, to the set; every other line is kept. The output is the kept lines, in order, joined by
  line feeds. On the three lines \<^verbatim>\<open>activate Bob\<close>, \<^verbatim>\<open>deactivate Alice\<close>, \<^verbatim>\<open>deactivate Bob\<close> the
  normalizer drops the second and keeps the other two, in order.
\<close>

theorem sequence_deactivate:
  "sanitizeSequence code = join [nl] (sequence_lines [] (split_on nl code)) \<and>
   sequence_lines [] (pre @ [line]) =
     sequence_lines [] pre @
       (case directive ''deactivate'' (quoteMessage line) of
          Some nm \<Rightarrow>
            if normalized_name nm = [] \<or> normalized_name nm \<notin> activation pre then []
            else [quoteMessage line]
        | None \<Rightarrow> [quoteMessage line]) \<and>
   (directive ''deactivate'' (quoteMessage line) = Some nm \<longrightarrow>
      activation (pre @ [line]) = activation pre - {normalized_name nm}) \<and>
   (CHR ''-'' \<notin> set line \<longrightarrow> quoteMessage line = line) \<and>
   sanitizeSequence (''activate Bob'' @ [nl] @ ''deactivate Alice'' @ [nl] @ ''deactivate Bob'')
     = ''activate Bob'' @ [nl] @ ''deactivate Bob''"
proof (intro conjI impI)
  show "sanitizeSequence code = join [nl] (sequence_lines [] (split_on nl code))"
    by (rule sanitizeSequence_spec)
  show "sequence_lines [] (pre @ [line]) =
     sequence_lines [] pre @
       (case directive ''deactivate'' (quoteMessage line) of
          Some nm \<Rightarrow>
            if normalized_name nm = [] \<or> normalized_name nm \<notin> activation pre then []
            else [quoteMessage line]
        | None \<Rightarrow> [quoteMessage line])"
    unfolding sequence_lines_append by (simp add: dropped_def split: option.splits)
  show "activation (pre @ [line]) = activation pre - {normalized_name nm}"
    if "directive ''deactivate'' (quoteMessage line) = Some nm"
    using that by (rule activation_deactivate)
  show "quoteMessage line = line" if "CHR ''-'' \<notin> set line"
    using that by (rule quoteMessage_no_hyphen)
  show "sanitizeSequence (''activate Bob'' @ [nl] @ ''deactivate Alice'' @ [nl] @ ''deactivate Bob'')
     = ''activate Bob'' @ [nl] @ ''deactivate Bob''"
    by code_simp
qed

theorem sequence_deactivate_witness:
  \<open>join [nl] (sequence_lines []
      (split_on nl (''activate "Bob"'' @ [nl] @ ''deactivate Alice'' @ [nl] @ ''deactivate  BOB '' @ [nl] @ ''deactivate Bob'')))
     = ''activate "Bob"'' @ [nl] @ ''deactivate  BOB '' \<and>
   activation [''activate "Bob"''] = {''bob''} \<and>
   activation ([''activate "Bob"''] @ [''deactivate  BOB '']) = {} \<and>
   quoteMessage ''deactivate  BOB '' = ''deactivate  BOB ''\<close>
proof -
  have a: \<open>sanitizeSequence (''activate "Bob"'' @ [nl] @ ''deactivate Alice'' @ [nl] @ ''deactivate  BOB '' @ [nl] @ ''deactivate Bob'')
     = ''activate "Bob"'' @ [nl] @ ''deactivate  BOB ''\<close>
    by code_simp
  have b: "CHR ''-'' \<notin> set ''deactivate  BOB ''" by simp
  have d: "directive ''deactivate'' ''deactivate  BOB '' = Some ''BOB ''" by code_simp
  have n: "normalized_name ''BOB '' = ''bob''" by code_simp
  have p: \<open>activation [''activate "Bob"''] = {''bob''}\<close> by code_simp
  note t = sequence_deactivate [where
      code = \<open>''activate "Bob"'' @ [nl] @ ''deactivate Alice'' @ [nl] @ ''deactivate  BOB '' @ [nl] @ ''deactivate Bob''\<close>
      and line = "''deactivate  BOB ''" and pre = \<open>[''activate "Bob"'']\<close> and nm = "''BOB ''"]
  have q: "quoteMessage ''deactivate  BOB '' = ''deactivate  BOB ''"
    using t b by blast
  have 1: \<open>join [nl] (sequence_lines []
      (split_on nl (''activate "Bob"'' @ [nl] @ ''deactivate Alice'' @ [nl] @ ''deactivate  BOB '' @ [nl] @ ''deactivate Bob'')))
     = ''activate "Bob"'' @ [nl] @ ''deactivate  BOB ''\<close>
    using t a by simp
  have \<open>activation ([''activate "Bob"''] @ [''deactivate  BOB '']) = activation [''activate "Bob"''] - {normalized_name ''BOB ''}\<close>
    using t d unfolding q by blast
  then have 3: \<open>activation ([''activate "Bob"''] @ [''deactivate  BOB '']) = {}\<close>
    unfolding p n by simp
  show ?thesis by (rule conjI[OF 1 conjI[OF p conjI[OF 3 q]]])
qed

section \<open>Node-content formatter\<close>

text \<open>
  C8, as the code has it. \<^verbatim>\<open>formatNodeContent\<close> returns a pair of double quotes for an input
  that trims to the empty string. When the trimmed input begins, in any letter case, with
  \<^verbatim>\<open>fa:\<close> followed by a word character or a hyphen, the icon is everything up to the first
  white space; it is returned alone when nothing but white space follows, and otherwise followed
  by a space and the cleaned remainder in double quotes. In every other case the whole cleaned
  text is returned in double quotes. The three examples of the specification hold.
\<close>

theorem formatNodeContent_cases:
  \<open>formatNodeContent raw =
     (if trim raw = [] then [dq, dq]
      else if icon_prefix (trim raw) then
        (if trim (dropWhile (\<lambda>c. \<not> is_space c) (trim raw)) = []
         then takeWhile (\<lambda>c. \<not> is_space c) (trim raw)
         else takeWhile (\<lambda>c. \<not> is_space c) (trim raw) @ '' '' @ [dq]
                @ cleanLabel (trim (dropWhile (\<lambda>c. \<not> is_space c) (trim raw))) @ [dq])
      else [dq] @ cleanLabel (trim raw) @ [dq]) \<and>
   formatNodeContent ''User Action'' = ''"User Action"'' \<and>
   formatNodeContent ''fa:user Login'' = ''fa:user "Login"'' \<and>
   formatNodeContent [] = [dq, dq]\<close>
proof (intro conjI)
  have d: "drop (length (takeWhile P s)) s = dropWhile P s" for P and s :: string
    by (induction s) auto
  show "formatNodeContent raw =
     (if trim raw = [] then [dq, dq]
      else if icon_prefix (trim raw) then
        (if trim (dropWhile (\<lambda>c. \<not> is_space c) (trim raw)) = []
         then takeWhile (\<lambda>c. \<not> is_space c) (trim raw)
         else takeWhile (\<lambda>c. \<not> is_space c) (trim raw) @ '' '' @ [dq]
                @ cleanLabel (trim (dropWhile (\<lambda>c. \<not> is_space c) (trim raw))) @ [dq])
      else [dq] @ cleanLabel (trim raw) @ [dq])"
    by (simp add: formatNodeContent_def Let_def first_ws_piece_def icon_rx_iff d)
  show \<open>formatNodeContent ''User Action'' = ''"User Action"''\<close> by code_simp
  show \<open>formatNodeContent ''fa:user Login'' = ''fa:user "Login"''\<close> by code_simp
  show "formatNodeContent [] = [dq, dq]" by code_simp
qed

theorem formatNodeContent_cases_witness:
  \<open>formatNodeContent '' FA:user-plus     _New user_ '' = ''FA:user-plus "New user"''\<close>
proof -
  have t: "trim '' FA:user-plus     _New user_ '' = ''FA:user-plus     _New user_''" by code_simp
  have l: "toLowerCase ''FA:'' = ''fa:''" by code_simp
  have w: "is_word CHR ''u''" by code_simp
  have "''FA:user-plus     _New user_'' = ''FA:'' @ CHR ''u'' # ''ser-plus     _New user_''" by simp
  then have i: "icon_prefix ''FA:user-plus     _New user_''"
    unfolding icon_prefix_def using l w by blast
  have a: "takeWhile (\<lambda>c. \<not> is_space c) ''FA:user-plus     _New user_'' = ''FA:user-plus''" by code_simp
  have b: "trim (dropWhile (\<lambda>c. \<not> is_space c) ''FA:user-plus     _New user_'') = ''_New user_''" by code_simp
  have c: "cleanLabel ''_New user_'' = ''New user''" by code_simp
  show ?thesis
    using formatNodeContent_cases [of "'' FA:user-plus     _New user_ ''"]
    unfolding t a b c using i by simp
qed


text \<open>
  Only the prefix \<^verbatim>\<open>fa:\<close> makes an icon, and the icon extends to the first white space whatever
  its characters: \<^verbatim>\<open>ab:cd\<close> is not kept as an icon, and \<^verbatim>\<open>fa:user!x\<close> is.
\<close>

theorem formatNodeContent_icon_counterexample:
  \<open>spec_formatNodeContent ''ab:cd Login'' = ''ab:cd "Login"'' \<and>
   formatNodeContent ''ab:cd Login'' = ''"ab:cd Login"'' \<and>
   spec_formatNodeContent ''fa:user!x y'' = ''"fa:user!x y"'' \<and>
   formatNodeContent ''fa:user!x y'' = ''fa:user!x "y"''\<close>
  by code_simp

section \<open>Semicolons in the normalized output\<close>

text \<open>
  C7, as the code has it. For every input, the output of the flow-graph normalizer
  \<^verbatim>\<open>normalizeGraphDiagram\<close> contains no semicolon: the unquoted ones end statements, the others
  are removed from every body line, and no rewriting step adds one. The outputs of the ER
  normalizer \<^verbatim>\<open>sanitizeErd\<close> and of the sequence normalizer \<^verbatim>\<open>sanitizeSequence\<close> can contain
  semicolons.
\<close>

theorem normalizeGraphDiagram_no_semicolon:
  "CHR '';'' \<notin> set (normalizeGraphDiagram code) \<and>
   (\<exists>erd. CHR '';'' \<in> set (sanitizeErd erd)) \<and>
   (\<exists>sequence. CHR '';'' \<in> set (sanitizeSequence sequence))"
proof (intro conjI)
  show "CHR '';'' \<notin> set (normalizeGraphDiagram code)"
  proof (cases "splitStatements code = []")
    case True
    then show ?thesis by (simp add: normalizeGraphDiagram_def)
  next
    case False
    obtain header body found where f: "foldl headerStep (''graph TD'', [], False) (splitStatements code) = (header, body, found)"
      by (cases "foldl headerStep (''graph TD'', [], False) (splitStatements code)")
    have "fst (foldl headerStep (''graph TD'', [], False) (splitStatements code)) = ''graph TD''
        \<or> fst (foldl headerStep (''graph TD'', [], False) (splitStatements code)) = ''graph LR''"
      by (rule foldl_headerStep_header) simp
    then have h: "header = ''graph TD'' \<or> header = ''graph LR''" using f by simp
    then have hs: "CHR '';'' \<notin> set header" by auto
    have "CHR '';'' \<notin> set (join [nl] (header # filter (\<lambda>l. l \<noteq> []) (map normalizeLine body)))"
      by (rule join_avoid) (use hs normalizeLine_semicolon in auto)
    then show ?thesis using False f by (simp add: normalizeGraphDiagram_def)
  qed
next
  have "CHR '';'' \<in> set (sanitizeErd (''erDiagram'' @ [nl] @ ''USER { int id; }''))"
    by code_simp
  then show "\<exists>erd. CHR '';'' \<in> set (sanitizeErd erd)" ..
next
  have "CHR '';'' \<in> set (sanitizeSequence (''sequenceDiagram'' @ [nl] @ ''A->>B: go;''))"
    by code_simp
  then show "\<exists>sequence. CHR '';'' \<in> set (sanitizeSequence sequence)" ..
qed

theorem normalizeGraphDiagram_no_semicolon_witness:
  \<open>normalizeGraphDiagram (''graph LR'' @ [nl] @ ''A["x;y"] --> B;'') = ''graph LR'' @ [nl] @ ''A["xy"] --> B'' \<and>
   CHR '';'' \<notin> set (normalizeGraphDiagram (''graph LR'' @ [nl] @ ''A["x;y"] --> B;''))\<close>
proof
  show \<open>normalizeGraphDiagram (''graph LR'' @ [nl] @ ''A["x;y"] --> B;'') = ''graph LR'' @ [nl] @ ''A["xy"] --> B''\<close>
    by code_simp
  show \<open>CHR '';'' \<notin> set (normalizeGraphDiagram (''graph LR'' @ [nl] @ ''A["x;y"] --> B;''))\<close>
    by (rule normalizeGraphDiagram_no_semicolon [THEN conjunct1])
qed

text \<open>
  The other two normalizers do not remove the semicolons of an attribute block or of a message
  text: on the two inputs below the output still contains a semicolon.
\<close>

theorem normalizers_semicolon_counterexample:
  \<open>sanitizeErd (''erDiagram'' @ [nl] @ ''USER { int id; }'') = ''erDiagram'' @ [nl] @ ''USER { int id; }'' \<and>
   CHR '';'' \<in> set (sanitizeErd (''erDiagram'' @ [nl] @ ''USER { int id; }'')) \<and>
   sanitizeSequence (''sequenceDiagram'' @ [nl] @ ''A->>B: go;'') = ''sequenceDiagram'' @ [nl] @ ''A->>B: "go;"'' \<and>
   CHR '';'' \<in> set (sanitizeSequence (''sequenceDiagram'' @ [nl] @ ''A->>B: go;''))\<close>
  by code_simp

section \<open>Quotes in the output of the dispatcher\<close>

text \<open>
  C2, as the code has it. \<^verbatim>\<open>sanitizeMermaidCode\<close> never throws: with every method call on a
  capture written out as an operation that can raise, the sanitizer returns a value on every
  input, the value of the model. It does not balance quotes. The label cleaner never emits an
  unescaped double quote, since it puts a backslash before each one. An input that trims to the
  empty string gives the empty string, which has no un-terminated quote. When the trimmed input
  begins with none of the three keywords it is returned as it is, so the output has an
  un-terminated quote exactly when the trimmed input has one. An input of the flow-graph dialect
  can give an output with an un-terminated quote.
\<close>

theorem sanitize_no_throw_quotes:
  "sanitizeMermaidCode_exn code = Inr (sanitizeMermaidCode code) \<and>
   count_unescaped p (cleanLabel text) = 0 \<and>
   (trim code = [] \<longrightarrow>
      sanitizeMermaidCode code = [] \<and> \<not> unterminated_quote (sanitizeMermaidCode code)) \<and>
   (\<not> startsWith (trim code) ''graph'' \<and> \<not> startsWith (trim code) ''erDiagram''
      \<and> \<not> startsWith (trim code) ''sequenceDiagram''
    \<longrightarrow> sanitizeMermaidCode code = trim code
        \<and> unterminated_quote (sanitizeMermaidCode code) = unterminated_quote (trim code)) \<and>
   (\<exists>graph. startsWith (trim graph) ''graph'' \<and> unterminated_quote (sanitizeMermaidCode graph))"
proof (intro conjI)
  show "sanitizeMermaidCode_exn code = Inr (sanitizeMermaidCode code)"
    by (rule sanitizeMermaidCode_exn_eq)
  show "count_unescaped p (cleanLabel text) = 0"
    by (rule count_unescaped_cleanLabel)
  show "trim code = [] \<longrightarrow>
      sanitizeMermaidCode code = [] \<and> \<not> unterminated_quote (sanitizeMermaidCode code)"
    by (simp add: sanitizeMermaidCode_def Let_def unterminated_quote_def)
  show "\<not> startsWith (trim code) ''graph'' \<and> \<not> startsWith (trim code) ''erDiagram''
      \<and> \<not> startsWith (trim code) ''sequenceDiagram''
    \<longrightarrow> sanitizeMermaidCode code = trim code
        \<and> unterminated_quote (sanitizeMermaidCode code) = unterminated_quote (trim code)"
    by (simp add: sanitizeMermaidCode_def Let_def unterminated_quote_def)
  have \<open>startsWith (trim (''graph TD'' @ [nl] @ ''A["x'')) ''graph'' \<and>
      unterminated_quote (sanitizeMermaidCode (''graph TD'' @ [nl] @ ''A["x''))\<close>
    by code_simp
  then show "\<exists>graph. startsWith (trim graph) ''graph'' \<and> unterminated_quote (sanitizeMermaidCode graph)"
    by (rule exI)
qed

theorem sanitize_no_throw_quotes_witness:
  \<open>sanitizeMermaidCode_exn (''graph LR; A[ "x" ] -->|_go_| B(fa:user y)'')
     = Inr (''graph LR'' @ [nl] @ ''A["x"] -->|"go"| B(fa:user "y")'') \<and>
   formatNodeContent_exn None = Inl TypeError \<and>
   unterminated_quote (sanitizeMermaidCode '' note "x '') \<and>
   \<not> unterminated_quote (sanitizeMermaidCode '' note "x" '') \<and>
   \<not> unterminated_quote (sanitizeMermaidCode ''  '')\<close>
proof -
  have g: \<open>sanitizeMermaidCode (''graph LR; A[ "x" ] -->|_go_| B(fa:user y)'')
     = ''graph LR'' @ [nl] @ ''A["x"] -->|"go"| B(fa:user "y")''\<close>
    by code_simp
  have e: "formatNodeContent_exn None = Inl TypeError" by code_simp
  have a: \<open>trim '' note "x '' = ''note "x''\<close> by code_simp
  have b: \<open>trim '' note "x" '' = ''note "x"''\<close> by code_simp
  have c: "trim ''  '' = []" by code_simp
  have a1: \<open>\<not> startsWith (''note "x'') ''graph'' \<and> \<not> startsWith (''note "x'') ''erDiagram''
      \<and> \<not> startsWith (''note "x'') ''sequenceDiagram''\<close> by code_simp
  have b1: \<open>\<not> startsWith (''note "x"'') ''graph'' \<and> \<not> startsWith (''note "x"'') ''erDiagram''
      \<and> \<not> startsWith (''note "x"'') ''sequenceDiagram''\<close> by code_simp
  have a2: \<open>unterminated_quote (''note "x'')\<close> by code_simp
  have b2: \<open>\<not> unterminated_quote (''note "x"'')\<close> by code_simp
  have 1: \<open>sanitizeMermaidCode_exn (''graph LR; A[ "x" ] -->|_go_| B(fa:user y)'')
     = Inr (''graph LR'' @ [nl] @ ''A["x"] -->|"go"| B(fa:user "y")'')\<close>
    using sanitize_no_throw_quotes [where code = \<open>''graph LR; A[ "x" ] -->|_go_| B(fa:user y)''\<close>,
        THEN conjunct1]
    unfolding g .
  have 2: \<open>unterminated_quote (sanitizeMermaidCode '' note "x '')\<close>
    using sanitize_no_throw_quotes [where code = \<open>'' note "x ''\<close>, THEN conjunct2, THEN conjunct2,
        THEN conjunct2, THEN conjunct1]
    unfolding a using a1 a2 by blast
  have 3: \<open>\<not> unterminated_quote (sanitizeMermaidCode '' note "x" '')\<close>
    using sanitize_no_throw_quotes [where code = \<open>'' note "x" ''\<close>, THEN conjunct2, THEN conjunct2,
        THEN conjunct2, THEN conjunct1]
    unfolding b using b1 b2 by blast
  have 4: \<open>\<not> unterminated_quote (sanitizeMermaidCode ''  '')\<close>
    using sanitize_no_throw_quotes [where code = \<open>''  ''\<close>, THEN conjunct2, THEN conjunct2,
        THEN conjunct1]
    unfolding c by blast
  show ?thesis by (rule conjI[OF 1 conjI[OF e conjI[OF 2 conjI[OF 3 4]]]])
qed

text \<open>
  An un-terminated quote survives in the flow-graph dialect, where an unclosed node body is left
  as it is, and in an unrecognised input.
\<close>

theorem sanitize_unterminated_quote_counterexample:
  \<open>sanitizeMermaidCode (''graph TD'' @ [nl] @ ''A["x'') = ''graph TD'' @ [nl] @ ''A["x'' \<and>
   unterminated_quote (sanitizeMermaidCode (''graph TD'' @ [nl] @ ''A["x'')) \<and>
   sanitizeMermaidCode [dq] = [dq] \<and>
   unterminated_quote (sanitizeMermaidCode [dq])\<close>
  by code_simp

section \<open>Header line of a normalized flow graph\<close>

text \<open>
  C4. For every input whose trimmed form begins with \<^verbatim>\<open>graph\<close>, the first line of the output
  of \<^verbatim>\<open>sanitizeMermaidCode\<close> is \<^verbatim>\<open>graph TD\<close> or \<^verbatim>\<open>graph LR\<close>. It is \<^verbatim>\<open>graph LR\<close> exactly when
  there is a header statement (the first statement matching \<^verbatim>\<open>/^graph\s+/i\<close>), a direction word
  is captured from it by \<^verbatim>\<open>/^graph\s+([A-Za-z]+)/i\<close>, and that word in upper case is \<^verbatim>\<open>LR\<close>;
  it is \<^verbatim>\<open>graph TD\<close> in every other case. Said without the matcher: a header statement
  begins with \<^verbatim>\<open>graph\<close> in any letter case and a white-space character, and the captured word
  is the maximal run of letters after the white space that follows the keyword.
\<close>

theorem sanitize_graph_header:
  assumes "startsWith (trim code) ''graph''"
  shows "first_line (sanitizeMermaidCode code) =
     (case List.find (rx_test header_rx) (splitStatements (trim code)) of
        None \<Rightarrow> ''graph TD''
      | Some statement \<Rightarrow>
          (case rx_match direction_rx statement of
             None \<Rightarrow> ''graph TD''
           | Some (m, c) \<Rightarrow> if toUpperCase (grp c 1) = ''LR'' then ''graph LR'' else ''graph TD'')) \<and>
   first_line (sanitizeMermaidCode code) =
     (case List.find graph_keyword (splitStatements (trim code)) of
        None \<Rightarrow> ''graph TD''
      | Some statement \<Rightarrow>
          if toUpperCase (direction_word statement) = ''LR'' then ''graph LR'' else ''graph TD'') \<and>
   (first_line (sanitizeMermaidCode code) = ''graph TD''
      \<or> first_line (sanitizeMermaidCode code) = ''graph LR'')"
proof -
  from assms obtain rest where t: "trim code = CHR ''g'' # rest"
    unfolding startsWith_iff by auto
  have ne: "splitStatements (trim code) \<noteq> []"
    unfolding t by (rule splitStatements_nonempty) (simp_all add: is_space_def)
  obtain header body found where
    f: "foldl headerStep (''graph TD'', [], False) (splitStatements (trim code)) = (header, body, found)"
    by (cases "foldl headerStep (''graph TD'', [], False) (splitStatements (trim code))")
  have h: "header = (case List.find (rx_test header_rx) (splitStatements (trim code)) of
              None \<Rightarrow> ''graph TD'' | Some st \<Rightarrow> header_of st)"
    using foldl_headerStep_find[of "''graph TD''" "[]" "splitStatements (trim code)"] f by simp
  have two: "header = ''graph TD'' \<or> header = ''graph LR''"
    unfolding h header_of_def by (auto split: option.splits)
  then have nonl: "nl \<notin> set header" by auto
  have "sanitizeMermaidCode code = join [nl] (header # filter (\<lambda>l. l \<noteq> []) (map normalizeLine body))"
    using assms t ne f by (simp add: sanitizeMermaidCode_def normalizeGraphDiagram_def Let_def)
  then have fl: "first_line (sanitizeMermaidCode code) = header"
    using first_line_join[OF nonl] by simp
  have p: "rx_test header_rx = graph_keyword" by (rule ext) (rule header_rx_iff)
  have d: "header = (case List.find graph_keyword (splitStatements (trim code)) of
        None \<Rightarrow> ''graph TD''
      | Some statement \<Rightarrow>
          if toUpperCase (direction_word statement) = ''LR'' then ''graph LR'' else ''graph TD'')"
  proof (cases "List.find graph_keyword (splitStatements (trim code))")
    case None
    then show ?thesis unfolding h p by simp
  next
    case (Some st)
    then have "graph_keyword st" by (auto simp: find_Some_iff)
    then show ?thesis unfolding h p Some using header_of_direction by simp
  qed
  have a: "first_line (sanitizeMermaidCode code) =
     (case List.find (rx_test header_rx) (splitStatements (trim code)) of
        None \<Rightarrow> ''graph TD''
      | Some statement \<Rightarrow>
          (case rx_match direction_rx statement of
             None \<Rightarrow> ''graph TD''
           | Some (m, c) \<Rightarrow> if toUpperCase (grp c 1) = ''LR'' then ''graph LR'' else ''graph TD''))"
    unfolding fl h header_of_def by (simp split: option.splits)
  have b: "first_line (sanitizeMermaidCode code) =
     (case List.find graph_keyword (splitStatements (trim code)) of
        None \<Rightarrow> ''graph TD''
      | Some statement \<Rightarrow>
          if toUpperCase (direction_word statement) = ''LR'' then ''graph LR'' else ''graph TD'')"
    unfolding fl by (rule d)
  have c: "first_line (sanitizeMermaidCode code) = ''graph TD''
      \<or> first_line (sanitizeMermaidCode code) = ''graph LR''"
    unfolding fl by (rule two)
  from a b c show ?thesis by (intro conjI)
qed

theorem sanitize_graph_header_witness:
  "first_line (sanitizeMermaidCode ('' graph lr'' @ [nl] @ ''A-->B'')) = ''graph LR'' \<and>
   first_line (sanitizeMermaidCode (''graphs'' @ [nl] @ ''graph Lr x'')) = ''graph LR'' \<and>
   first_line (sanitizeMermaidCode (''graph LRX'' @ [nl] @ ''graph LR'')) = ''graph TD'' \<and>
   first_line (sanitizeMermaidCode (''graph'' @ [nl] @ ''A-->B'')) = ''graph TD''"
proof -
  have s: "startsWith (trim ('' graph lr'' @ [nl] @ ''A-->B'')) ''graph''"
    "startsWith (trim (''graphs'' @ [nl] @ ''graph Lr x'')) ''graph''"
    "startsWith (trim (''graph LRX'' @ [nl] @ ''graph LR'')) ''graph''"
    "startsWith (trim (''graph'' @ [nl] @ ''A-->B'')) ''graph''"
    by code_simp+
  have h: "header_of ''graph lr'' = ''graph LR''" "header_of ''graph Lr x'' = ''graph LR''"
    "header_of ''graph LRX'' = ''graph TD''"
    by code_simp+
  have f: "List.find (rx_test header_rx) (splitStatements (trim ('' graph lr'' @ [nl] @ ''A-->B'')))
             = Some ''graph lr''"
    "List.find (rx_test header_rx) (splitStatements (trim (''graphs'' @ [nl] @ ''graph Lr x'')))
             = Some ''graph Lr x''"
    "List.find (rx_test header_rx) (splitStatements (trim (''graph LRX'' @ [nl] @ ''graph LR'')))
             = Some ''graph LRX''"
    "List.find (rx_test header_rx) (splitStatements (trim (''graph'' @ [nl] @ ''A-->B''))) = None"
    by code_simp+
  show ?thesis
    using sanitize_graph_header [OF s(1), THEN conjunct1]
      sanitize_graph_header [OF s(2), THEN conjunct1]
      sanitize_graph_header [OF s(3), THEN conjunct1]
      sanitize_graph_header [OF s(4), THEN conjunct1] h
    unfolding f header_of_def by simp
qed

section \<open>Fallback synthesizer\<close>

text \<open>
  C1. For every analysis result (any list of screen descriptions, any list of components, the
  empty lists included) and every list of screen descriptions, the diagrams built by
  \<^verbatim>\<open>buildBusinessFlowFallback\<close> and \<^verbatim>\<open>buildScreenTransitionFallback\<close> are accepted by
  \<^verbatim>\<open>hasRenderableGraphDiagram\<close>.
\<close>

theorem fallback_diagrams_renderable:
  "hasRenderableGraphDiagram (Some (buildBusinessFlowFallback result)) \<and>
   hasRenderableGraphDiagram (Some (buildScreenTransitionFallback screens))"
  using business_flow_renderable screen_transition_renderable by simp

theorem fallback_diagrams_renderable_witness:
  \<open>buildScreenTransitionFallback [] =
     ''graph TD'' @ [nl] @ ''  Start["User Entry"]'' @ [nl] @ ''  EndPoint["Goal Achieved"]'' @ [nl] @
     ''  Screen0["Main Screen"]'' @ [nl] @ ''  Start --> Screen0'' @ [nl] @ ''  Screen0 --> EndPoint'' \<and>
   hasRenderableGraphDiagram (Some (buildScreenTransitionFallback [])) \<and>
   hasRenderableGraphDiagram
     (Some (buildBusinessFlowFallback
        \<lparr>overview = [], components = [], technologies = [], businessFlowDiagram = [],
         sequenceDiagram = [], screenTransitionDiagram = [], databaseERD = [],
         screenDescriptions = [],
         codeQualityAnalysis = \<lparr>readability = [], extensibility = [], security = []\<rparr>\<rparr>))\<close>
proof (intro conjI)
  show \<open>buildScreenTransitionFallback [] =
     ''graph TD'' @ [nl] @ ''  Start["User Entry"]'' @ [nl] @ ''  EndPoint["Goal Achieved"]'' @ [nl] @
     ''  Screen0["Main Screen"]'' @ [nl] @ ''  Start --> Screen0'' @ [nl] @ ''  Screen0 --> EndPoint''\<close>
    by code_simp
qed (use fallback_diagrams_renderable in blast)+

section \<open>Screen-description synchronization\<close>

text \<open>
  C9, as the code has it. \<^verbatim>\<open>ensureScreenDescriptionsMatchDiagram\<close> changes only the list of
  screen descriptions. The new list has one entry for each label extracted from the
  screen-transition diagram, in diagram order: the last existing description whose name equals
  the label after trimming and lower-casing both, or else the placeholder made from the label.
  Then come, in their original order, the existing descriptions whose trimmed lower-case name is
  the name of no label. The extracted labels are pairwise different up to letter case, so the
  list is at least as long as the number of distinct labels. For a diagram with the labels
  \<^verbatim>\<open>Login\<close> and \<^verbatim>\<open>Home\<close> and an existing list with only \<^verbatim>\<open>Home\<close>, the result is the placeholder
  for \<^verbatim>\<open>Login\<close> followed by the existing \<^verbatim>\<open>Home\<close>.
\<close>

theorem screen_descriptions_synchronized:
  \<open>ensureScreenDescriptionsMatchDiagram result =
     result\<lparr>screenDescriptions :=
       map (\<lambda>l. case last_match (screenDescriptions result) (screenKey l) of
                   Some d \<Rightarrow> d
                 | None \<Rightarrow> createPlaceholderScreen l)
         (extractScreenNamesFromDiagram (Some (screenTransitionDiagram result))) @
       filter (\<lambda>d. screenKey (screenName d)
                      \<notin> screenKey ` set (extractScreenNamesFromDiagram (Some (screenTransitionDiagram result))))
         (screenDescriptions result)\<rparr> \<and>
   distinct (map toLowerCase (extractScreenNamesFromDiagram (Some (screenTransitionDiagram result)))) \<and>
   length (extractScreenNamesFromDiagram (Some (screenTransitionDiagram result)))
     \<le> length (screenDescriptions (ensureScreenDescriptionsMatchDiagram result)) \<and>
   extractScreenNamesFromDiagram (Some (''graph TD'' @ [nl] @ ''A["Login"] --> B["Home"]''))
     = [''Login'', ''Home''] \<and>
   screenDescriptions (ensureScreenDescriptionsMatchDiagram
       (blankResult\<lparr>screenTransitionDiagram := ''graph TD'' @ [nl] @ ''A["Login"] --> B["Home"]'',
                     screenDescriptions := [plainScreen ''Home'']\<rparr>))
     = [createPlaceholderScreen ''Login'', plainScreen ''Home'']\<close>
proof -
  let ?labels = "extractScreenNamesFromDiagram (Some (screenTransitionDiagram result))"
  have f: "filter (\<lambda>screen. \<not> list_ex (\<lambda>label. screenKey label = screenKey (screenName screen)) ls) ds
         = filter (\<lambda>d. screenKey (screenName d) \<notin> screenKey ` set ls) ds" for ls ds
  proof (rule filter_cong)
    fix x assume "x \<in> set ds"
    show "(\<not> list_ex (\<lambda>label. screenKey label = screenKey (screenName x)) ls)
          = (screenKey (screenName x) \<notin> screenKey ` set ls)"
      unfolding list_ex_iff by (metis imageE imageI)
  qed simp
  have main: "ensureScreenDescriptionsMatchDiagram result =
     result\<lparr>screenDescriptions :=
       map (\<lambda>l. case last_match (screenDescriptions result) (screenKey l) of
                   Some d \<Rightarrow> d
                 | None \<Rightarrow> createPlaceholderScreen l) ?labels @
       filter (\<lambda>d. screenKey (screenName d) \<notin> screenKey ` set ?labels) (screenDescriptions result)\<rparr>"
  proof (cases "?labels = []")
    case True
    then show ?thesis by (simp add: ensureScreenDescriptionsMatchDiagram_def)
  next
    case False
    then show ?thesis
      by (simp add: ensureScreenDescriptionsMatchDiagram_def Let_def existingMap_last_match f)
  qed
  have len: "length ?labels \<le> length (screenDescriptions (ensureScreenDescriptionsMatchDiagram result))"
    by (subst main) simp
  have ex1: \<open>extractScreenNamesFromDiagram (Some (''graph TD'' @ [nl] @ ''A["Login"] --> B["Home"]''))
     = [''Login'', ''Home'']\<close>
    by code_simp
  have ex2: \<open>screenDescriptions (ensureScreenDescriptionsMatchDiagram
       (blankResult\<lparr>screenTransitionDiagram := ''graph TD'' @ [nl] @ ''A["Login"] --> B["Home"]'',
                     screenDescriptions := [plainScreen ''Home'']\<rparr>))
     = [createPlaceholderScreen ''Login'', plainScreen ''Home'']\<close>
    by code_simp
  show ?thesis using main extract_distinct len ex1 ex2 by blast
qed

theorem screen_descriptions_synchronized_witness:
  \<open>screenDescriptions (ensureScreenDescriptionsMatchDiagram
       (blankResult\<lparr>screenTransitionDiagram := ''graph TD'' @ [nl] @ ''A["Login"] --> B("Home")'',
                     screenDescriptions := [plainScreen ''Other'', plainScreen '' home '', plainScreen ''HOME'']\<rparr>))
     = [createPlaceholderScreen ''Login'', plainScreen ''HOME'', plainScreen ''Other'']\<close>
proof -
  let ?R = \<open>blankResult\<lparr>screenTransitionDiagram := ''graph TD'' @ [nl] @ ''A["Login"] --> B("Home")'',
                     screenDescriptions := [plainScreen ''Other'', plainScreen '' home '', plainScreen ''HOME'']\<rparr>\<close>
  have rhs: "map (\<lambda>l. case last_match (screenDescriptions ?R) (screenKey l) of
                   Some d \<Rightarrow> d
                 | None \<Rightarrow> createPlaceholderScreen l)
         (extractScreenNamesFromDiagram (Some (screenTransitionDiagram ?R))) @
       filter (\<lambda>d. screenKey (screenName d)
                      \<notin> screenKey ` set (extractScreenNamesFromDiagram (Some (screenTransitionDiagram ?R))))
         (screenDescriptions ?R)
       = [createPlaceholderScreen ''Login'', plainScreen ''HOME'', plainScreen ''Other'']"
    by code_simp
  have "screenDescriptions (ensureScreenDescriptionsMatchDiagram ?R) =
      map (\<lambda>l. case last_match (screenDescriptions ?R) (screenKey l) of
                   Some d \<Rightarrow> d
                 | None \<Rightarrow> createPlaceholderScreen l)
         (extractScreenNamesFromDiagram (Some (screenTransitionDiagram ?R))) @
       filter (\<lambda>d. screenKey (screenName d)
                      \<notin> screenKey ` set (extractScreenNamesFromDiagram (Some (screenTransitionDiagram ?R))))
         (screenDescriptions ?R)"
    by (subst screen_descriptions_synchronized [THEN conjunct1]) simp
  then show ?thesis unfolding rhs .
qed

text \<open>
  Names are compared after trimming as well: an existing description named \<^verbatim>\<open>Home\<close> with a
  leading space is taken for the label \<^verbatim>\<open>Home\<close>, where a comparison up to letter case alone
  would put a placeholder first and keep the description as an extra.
\<close>

theorem screen_descriptions_trim_counterexample:
  \<open>extractScreenNamesFromDiagram (Some (''graph TD'' @ [nl] @ ''A["Home"] --> B'')) = [''Home''] \<and>
   screenDescriptions (ensureScreenDescriptionsMatchDiagram
       (blankResult\<lparr>screenTransitionDiagram := ''graph TD'' @ [nl] @ ''A["Home"] --> B'',
                     screenDescriptions := [plainScreen '' Home'']\<rparr>))
     = [plainScreen '' Home''] \<and>
   spec_synchronized [''Home''] [plainScreen '' Home'']
     = [createPlaceholderScreen ''Home'', plainScreen '' Home'']\<close>
  by code_simp


end
